theory Spec2Isabelle
  imports Complex_Main "HOL-Library.Multiset"
begin

section \<open>Shared data model\<close>

text \<open>
  A rectangle is the Python list \<open>[x, y, w, h]\<close> (upper-left origin, grid-cell units), a
  centerpoint is the list \<open>[x, y]\<close>. Python's unbounded integers are \<open>int\<close>. A grid is a
  list of rows, indexed \<open>grid[row][col]\<close>.
\<close>

type_synonym rectangle = "int \<times> int \<times> int \<times> int"
type_synonym point = "int \<times> int"
type_synonym grid = "int list list"

text \<open>Exceptions are values: every function that can raise returns \<open>py_error + 'a\<close>.\<close>

datatype py_error = TypeError | ValueError | IndexError | ZeroDivisionError | NameError
  | RecursionError | AttributeError

definition bindE :: "py_error + 'a \<Rightarrow> ('a \<Rightarrow> py_error + 'b) \<Rightarrow> py_error + 'b" where
  "bindE m f = (case m of Inl e \<Rightarrow> Inl e | Inr x \<Rightarrow> f x)"

text \<open>A \<open>for\<close> loop whose body may raise: the first exception ends the loop.\<close>

fun foldE :: "('a \<Rightarrow> 's \<Rightarrow> py_error + 's) \<Rightarrow> 'a list \<Rightarrow> 's \<Rightarrow> py_error + 's" where
  "foldE f [] s = Inr s"
| "foldE f (x # xs) s = (case f x s of Inl e \<Rightarrow> Inl e | Inr s' \<Rightarrow> foldE f xs s')"

text \<open>\<open>range(a, b)\<close> over integers; empty when \<open>b \<le> a\<close>.\<close>

definition py_range :: "int \<Rightarrow> int \<Rightarrow> int list" where
  "py_range a b = [a..b - 1]"

text \<open>
  The source of randomness is an infinite stream of draws, \<open>nat \<Rightarrow> nat\<close>; every call of
  \<open>random.randint(a, b)\<close> consumes the head of the stream and maps it into \<open>[a, b]\<close>, so
  every outcome of the library call is the image of some stream. \<open>randint\<close> raises
  ValueError on an empty range.
\<close>

type_synonym rng = "nat \<Rightarrow> nat"

definition randint :: "int \<Rightarrow> int \<Rightarrow> rng \<Rightarrow> py_error + (int \<times> rng)" where
  "randint a b g =
     (if b < a then Inl ValueError
      else Inr (a + int (g 0 mod nat (b - a + 1)), \<lambda>n. g (Suc n)))"

text \<open>A finite list of draws followed by zeros, for concrete runs.\<close>

definition draws :: "nat list \<Rightarrow> rng" where
  "draws ds = (\<lambda>n. case drop n ds of [] \<Rightarrow> 0 | d # _ \<Rightarrow> d)"

text \<open>
  Python list indexing: a negative index counts from the end, an index outside
  \<open>[-len, len)\<close> raises IndexError. \<open>py_index\<close> is the position that is read or written.
\<close>

definition py_index :: "'a list \<Rightarrow> int \<Rightarrow> py_error + nat" where
  "py_index xs i =
     (let n = int (length xs); j = (if i < 0 then n + i else i)
      in if 0 \<le> j \<and> j < n then Inr (nat j) else Inl IndexError)"

definition grid_get :: "grid \<Rightarrow> int \<Rightarrow> int \<Rightarrow> py_error + int" where
  "grid_get m r c =
     bindE (py_index m r) (\<lambda>i. bindE (py_index (m ! i) c) (\<lambda>j. Inr (m ! i ! j)))"

definition grid_set :: "grid \<Rightarrow> int \<Rightarrow> int \<Rightarrow> int \<Rightarrow> py_error + grid" where
  "grid_set m r c v =
     bindE (py_index m r) (\<lambda>i. bindE (py_index (m ! i) c) (\<lambda>j. Inr (m[i := (m ! i)[j := v]])))"

text \<open>\<open>m[r][c] += 1\<close>\<close>

definition grid_incr :: "grid \<Rightarrow> int \<Rightarrow> int \<Rightarrow> py_error + grid" where
  "grid_incr m r c = bindE (grid_get m r c) (\<lambda>v. grid_set m r c (v + 1))"

text \<open>\<open>if m[r][c] == 0: m[r][c] += 1\<close>\<close>

definition grid_incr_if_zero :: "grid \<Rightarrow> int \<Rightarrow> int \<Rightarrow> py_error + grid" where
  "grid_incr_if_zero m r c =
     bindE (grid_get m r c) (\<lambda>v. if v = 0 then grid_incr m r c else Inr m)"

text \<open>The nested loops that fill a fresh map with zeroes.\<close>

definition blank_map :: "int \<Rightarrow> int \<Rightarrow> grid" where
  "blank_map width height = map (\<lambda>each_row. map (\<lambda>each_column. 0) (py_range 0 width)) (py_range 0 height)"

text \<open>
  The room generators keep their parameters as object state. \<open>__init__\<close> and
  \<open>generate_noise\<close> store the map width and height decremented by one.
\<close>

record room_generator =
  map_width :: int
  map_height :: int
  room_max_size :: int
  room_min_size :: int
  room_max_count :: int
  room_min_count :: int

section \<open>DungeonMapGenerator and MarkIIDungeonMapGenerator: rectangle intersection\<close>

text \<open>
  \<open>DungeonMapGenerator.check_these_two_rectangles_for_intersection\<close>. The flag
  \<open>do_they_intersect\<close> starts False and is set by four consecutive \<open>if\<close> trees; the
  second tree compares \<open>old_x >= old_x\<close>, as the source does.
\<close>

definition check_these_two_rectangles_for_intersection :: "rectangle \<Rightarrow> rectangle \<Rightarrow> bool" where
  "check_these_two_rectangles_for_intersection rectangle_alpha rectangle_beta =
     (case rectangle_alpha of (a0, a1, a2, a3) \<Rightarrow>
      case rectangle_beta of (b0, b1, b2, b3) \<Rightarrow>
      let new_x = a0; new_x2 = a0 + a2; old_x = b0; old_x2 = b0 + b2;
          new_y = a1; new_y2 = a1 + a3; old_y = b1; old_y2 = b1 + b3;
          d0 = False;
          d1 = (if (new_x \<ge> old_x \<and> new_x \<le> old_x2) \<or> (new_x2 \<ge> old_x \<and> new_x2 \<le> old_x2)
                then (if (new_y \<ge> old_y \<and> new_y \<le> old_y2) \<or> (new_y2 \<ge> old_y \<and> new_y2 \<le> old_y2)
                      then True else d0)
                else d0);
          d2 = (if (old_x \<ge> old_x \<and> old_x \<le> new_x2) \<or> (old_x2 \<ge> new_x \<and> old_x2 \<le> new_x2)
                then (if (old_y \<ge> new_y \<and> old_y \<le> new_y2) \<or> (old_y2 \<ge> new_y \<and> old_y2 \<le> new_y2)
                      then True else d1)
                else d1);
          d3 = (if (new_x \<ge> old_x \<and> new_x2 \<le> old_x2) \<and> (new_y \<le> old_y \<and> new_y2 \<ge> old_y2)
                then True else d2);
          d4 = (if (old_x > new_x \<and> old_x2 < new_x2) \<and> (old_y < new_y \<and> old_y2 > new_y2)
                then True else d3)
      in d4)"

text \<open>
  \<open>MarkIIDungeonMapGenerator.check_these_two_rectangles_for_intersection\<close>: the same
  text as the method of \<open>DungeonMapGenerator\<close>.
\<close>

definition mk2_check_these_two_rectangles_for_intersection :: "rectangle \<Rightarrow> rectangle \<Rightarrow> bool" where
  "mk2_check_these_two_rectangles_for_intersection rectangle_alpha rectangle_beta =
     (case rectangle_alpha of (a0, a1, a2, a3) \<Rightarrow>
      case rectangle_beta of (b0, b1, b2, b3) \<Rightarrow>
      let new_x = a0; new_x2 = a0 + a2; old_x = b0; old_x2 = b0 + b2;
          new_y = a1; new_y2 = a1 + a3; old_y = b1; old_y2 = b1 + b3;
          d0 = False;
          d1 = (if (new_x \<ge> old_x \<and> new_x \<le> old_x2) \<or> (new_x2 \<ge> old_x \<and> new_x2 \<le> old_x2)
                then (if (new_y \<ge> old_y \<and> new_y \<le> old_y2) \<or> (new_y2 \<ge> old_y \<and> new_y2 \<le> old_y2)
                      then True else d0)
                else d0);
          d2 = (if (old_x \<ge> old_x \<and> old_x \<le> new_x2) \<or> (old_x2 \<ge> new_x \<and> old_x2 \<le> new_x2)
                then (if (old_y \<ge> new_y \<and> old_y \<le> new_y2) \<or> (old_y2 \<ge> new_y \<and> old_y2 \<le> new_y2)
                      then True else d1)
                else d1);
          d3 = (if (new_x \<ge> old_x \<and> new_x2 \<le> old_x2) \<and> (new_y \<le> old_y \<and> new_y2 \<ge> old_y2)
                then True else d2);
          d4 = (if (old_x > new_x \<and> old_x2 < new_x2) \<and> (old_y < new_y \<and> old_y2 > new_y2)
                then True else d3)
      in d4)"

section \<open>DungeonMapGenerator\<close>

definition dungeon_init :: "int \<Rightarrow> int \<Rightarrow> int \<Rightarrow> int \<Rightarrow> int \<Rightarrow> int \<Rightarrow> room_generator" where
  "dungeon_init supplied_map_width supplied_map_height rmax rmin cmax cmin =
     \<lparr>map_width = supplied_map_width - 1, map_height = supplied_map_height - 1,
      room_max_size = rmax, room_min_size = rmin,
      room_max_count = cmax, room_min_count = cmin\<rparr>"

definition dungeon_set_parameters ::
  "room_generator \<Rightarrow> int option \<Rightarrow> int option \<Rightarrow> int option \<Rightarrow> int option \<Rightarrow> int option
     \<Rightarrow> int option \<Rightarrow> room_generator" where
  "dungeon_set_parameters self supplied_map_width supplied_map_height rmax rmin cmax cmin =
     \<lparr>map_width = (case supplied_map_width of None \<Rightarrow> map_width self | Some v \<Rightarrow> v - 1),
      map_height = (case supplied_map_height of None \<Rightarrow> map_height self | Some v \<Rightarrow> v - 1),
      room_max_size = (case rmax of None \<Rightarrow> room_max_size self | Some v \<Rightarrow> v),
      room_min_size = (case rmin of None \<Rightarrow> room_min_size self | Some v \<Rightarrow> v),
      room_max_count = (case cmax of None \<Rightarrow> room_max_count self | Some v \<Rightarrow> v),
      room_min_count = (case cmin of None \<Rightarrow> room_min_count self | Some v \<Rightarrow> v)\<rparr>"

text \<open>
  \<open>return_the_center_of_this_rectangle(self, upperleft_x, upperleft_y, width, height)\<close>
  has four required parameters. An argument the caller does not pass is None here; a call
  that leaves a required parameter unbound raises TypeError before the body runs.
\<close>

definition dungeon_return_the_center_of_this_rectangle ::
  "int option \<Rightarrow> int option \<Rightarrow> int option \<Rightarrow> int option \<Rightarrow> py_error + point" where
  "dungeon_return_the_center_of_this_rectangle upperleft_x upperleft_y width height =
     (case (upperleft_x, upperleft_y, width, height) of
        (Some x, Some y, Some w, Some h) \<Rightarrow> Inr (x + (w div 2), y + (h div 2))
      | _ \<Rightarrow> Inl TypeError)"

definition dungeon_room_attempt ::
  "room_generator \<Rightarrow> rectangle list \<times> rng \<Rightarrow> py_error + (rectangle list \<times> rng)" where
  "dungeon_room_attempt self s =
     (case s of (list_of_rooms, g) \<Rightarrow>
      bindE (randint (room_min_size self) (room_max_size self) g) (\<lambda>(new_room_width, g1).
      bindE (randint (room_min_size self) (room_max_size self) g1) (\<lambda>(new_room_height, g2).
      bindE (randint 1 (map_width self - new_room_width) g2) (\<lambda>(new_room_upperleft_x, g3).
      bindE (randint 1 (map_height self - new_room_height) g3) (\<lambda>(new_room_upperleft_y, g4).
        let new_room = (new_room_upperleft_x, new_room_upperleft_y, new_room_width, new_room_height);
            failed_intersection_test =
              fold (\<lambda>each_other_room failed.
                      if check_these_two_rectangles_for_intersection new_room each_other_room
                      then True else failed)
                   list_of_rooms False
        in Inr (if failed_intersection_test then list_of_rooms else list_of_rooms @ [new_room],
                g4))))))"

text \<open>
  \<open>while are_there_enough_rooms_yet == False\<close>: every round starts from an empty list of
  rooms; the number of rounds is unbounded.
\<close>

partial_function (option) dungeon_place_rooms ::
  "room_generator \<Rightarrow> rng \<Rightarrow> (py_error + (rectangle list \<times> rng)) option" where
  "dungeon_place_rooms self g =
     (case foldE (\<lambda>each_room_attempt_number. dungeon_room_attempt self)
             (py_range 0 (room_max_count self)) ([], g) of
        Inl e \<Rightarrow> Some (Inl e)
      | Inr (list_of_rooms, g') \<Rightarrow>
          if int (length list_of_rooms) \<ge> room_min_count self
          then Some (Inr (list_of_rooms, g'))
          else dungeon_place_rooms self g')"

declare dungeon_place_rooms.simps [code]

definition dungeon_carve_room :: "rectangle \<Rightarrow> grid \<Rightarrow> py_error + grid" where
  "dungeon_carve_room r m =
     (case r of (x, y, w, h) \<Rightarrow>
        foldE (\<lambda>each_x_coordinate.
                 foldE (\<lambda>each_y_coordinate m'.
                          grid_incr_if_zero m' each_y_coordinate each_x_coordinate)
                       (py_range y (y + h)))
              (py_range x (x + w)) m)"

text \<open>
  The body of \<open>for each_completed_room in list_of_rooms\<close>: the room is carved, the
  direction is drawn, and then \<open>self.return_the_center_of_this_rectangle()\<close> is called
  with no arguments. The statements after that call read \<open>room_alpha_center\<close> and
  \<open>room_beta_center\<close>, which no statement of the method assigns (NameError).
\<close>

definition dungeon_room_body :: "rectangle \<Rightarrow> grid \<times> rng \<Rightarrow> py_error + (grid \<times> rng)" where
  "dungeon_room_body each_completed_room s =
     (case s of (new_dungeon_map, g) \<Rightarrow>
      bindE (dungeon_carve_room each_completed_room new_dungeon_map) (\<lambda>m'.
      bindE (randint 0 1 g) (\<lambda>(which_direction_first, g').
      bindE (dungeon_return_the_center_of_this_rectangle None None None None)
        (\<lambda>the_centerpoint_of_this_room. Inl NameError))))"

definition dungeon_generate_noise ::
  "room_generator \<Rightarrow> int option \<Rightarrow> int option \<Rightarrow> int option \<Rightarrow> int option \<Rightarrow> int option
     \<Rightarrow> int option \<Rightarrow> rng \<Rightarrow> (py_error + grid) option" where
  "dungeon_generate_noise self0 supplied_map_width supplied_map_height rmax rmin cmax cmin g =
     (let self = dungeon_set_parameters self0 supplied_map_width supplied_map_height rmax rmin cmax cmin;
          new_dungeon_map = blank_map (map_width self) (map_height self)
      in case dungeon_place_rooms self g of
           None \<Rightarrow> None
         | Some (Inl e) \<Rightarrow> Some (Inl e)
         | Some (Inr (list_of_rooms, g')) \<Rightarrow>
             Some (bindE (foldE dungeon_room_body list_of_rooms (new_dungeon_map, g'))
                     (\<lambda>(m, g''). Inr m)))"

section \<open>MarkIIDungeonMapGenerator\<close>

text \<open>\<open>__init__\<close>: the bottom and right edges are taken off the stored map size.\<close>

definition mk2_init :: "int \<Rightarrow> int \<Rightarrow> int \<Rightarrow> int \<Rightarrow> int \<Rightarrow> int \<Rightarrow> room_generator" where
  "mk2_init supplied_map_width supplied_map_height rmax rmin cmax cmin =
     \<lparr>map_width = supplied_map_width - 1, map_height = supplied_map_height - 1,
      room_max_size = rmax, room_min_size = rmin,
      room_max_count = cmax, room_min_count = cmin\<rparr>"

text \<open>
  The head of \<open>generate_noise\<close>: every argument that is not None replaces the stored
  parameter; width and height are stored decremented.
\<close>

definition mk2_set_parameters ::
  "room_generator \<Rightarrow> int option \<Rightarrow> int option \<Rightarrow> int option \<Rightarrow> int option \<Rightarrow> int option
     \<Rightarrow> int option \<Rightarrow> room_generator" where
  "mk2_set_parameters self supplied_map_width supplied_map_height rmax rmin cmax cmin =
     \<lparr>map_width = (case supplied_map_width of None \<Rightarrow> map_width self | Some v \<Rightarrow> v - 1),
      map_height = (case supplied_map_height of None \<Rightarrow> map_height self | Some v \<Rightarrow> v - 1),
      room_max_size = (case rmax of None \<Rightarrow> room_max_size self | Some v \<Rightarrow> v),
      room_min_size = (case rmin of None \<Rightarrow> room_min_size self | Some v \<Rightarrow> v),
      room_max_count = (case cmax of None \<Rightarrow> room_max_count self | Some v \<Rightarrow> v),
      room_min_count = (case cmin of None \<Rightarrow> room_min_count self | Some v \<Rightarrow> v)\<rparr>"

text \<open>
  \<open>define_corridor\<close>. The orientation is the string \<open>'horizontal'\<close> or \<open>'vertical'\<close> at
  every call site.
\<close>

datatype orientation = Horizontal | Vertical

definition mk2_define_corridor :: "orientation \<Rightarrow> int \<Rightarrow> int \<Rightarrow> int \<Rightarrow> int \<Rightarrow> rectangle" where
  "mk2_define_corridor which_orientation x y x2 y2 =
     (let width = x2 - x; height = y2 - y
      in case which_orientation of
           Horizontal \<Rightarrow>
             (if width < 0 then (let width' = width * (- 1); x' = x - width' in (x', y, width' + 1, 1))
              else (x, y, width + 1, 1))
         | Vertical \<Rightarrow>
             (if height < 0 then (let height' = height * (- 1); y' = y - height' in (x, y', 1, height' + 1))
              else (x, y, 1, height + 1)))"

definition mk2_return_the_center_of_this_rectangle :: "rectangle \<Rightarrow> point" where
  "mk2_return_the_center_of_this_rectangle r =
     (case r of (upperleft_x, upperleft_y, width, height) \<Rightarrow>
        (upperleft_x + (width div 2), upperleft_y + (height div 2)))"

subsection \<open>Placement\<close>

text \<open>One pass of the body of \<open>for each_new_room_attempt in range(0, self.room_max_count)\<close>.\<close>

definition mk2_room_attempt ::
  "room_generator \<Rightarrow> rectangle list \<times> rng \<Rightarrow> py_error + (rectangle list \<times> rng)" where
  "mk2_room_attempt self s =
     (case s of (list_of_candidate_rooms, g) \<Rightarrow>
      bindE (randint (room_min_size self) (room_max_size self) g) (\<lambda>(new_room_width, g1).
      bindE (randint (room_min_size self) (room_max_size self) g1) (\<lambda>(new_room_height, g2).
      bindE (randint 1 ((map_width self - 1) - new_room_width) g2) (\<lambda>(new_room_x, g3).
      bindE (randint 1 ((map_height self - 1) - new_room_height) g3) (\<lambda>(new_room_y, g4).
        let new_room_candidate = (new_room_x, new_room_y, new_room_width, new_room_height);
            should_we_append_this_room =
              fold (\<lambda>each_other_room ok.
                      if mk2_check_these_two_rectangles_for_intersection new_room_candidate each_other_room
                      then False else ok)
                   list_of_candidate_rooms True
        in Inr (if should_we_append_this_room
                then list_of_candidate_rooms @ [new_room_candidate]
                else list_of_candidate_rooms, g4))))))"

definition mk2_room_batch ::
  "room_generator \<Rightarrow> rectangle list \<times> rng \<Rightarrow> py_error + (rectangle list \<times> rng)" where
  "mk2_room_batch self s =
     foldE (\<lambda>each_new_room_attempt. mk2_room_attempt self) (py_range 0 (room_max_count self)) s"

text \<open>
  \<open>while (len(list_of_candidate_rooms) < self.room_min_count)\<close>: a batch that ends with
  too few rooms is emptied and the loop goes round again. Nothing bounds the number of
  rounds, so the loop is a partial function: None is a run that never leaves the loop.
\<close>

partial_function (option) mk2_place_rooms ::
  "room_generator \<Rightarrow> rectangle list \<Rightarrow> rng \<Rightarrow> (py_error + (rectangle list \<times> rng)) option" where
  "mk2_place_rooms self list_of_candidate_rooms g =
     (if int (length list_of_candidate_rooms) < room_min_count self
      then (case mk2_room_batch self (list_of_candidate_rooms, g) of
              Inl e \<Rightarrow> Some (Inl e)
            | Inr (rooms', g') \<Rightarrow>
                mk2_place_rooms self
                  (if int (length rooms') < room_min_count self then [] else rooms') g')
      else Some (Inr (list_of_candidate_rooms, g)))"

declare mk2_place_rooms.simps [code]

subsection \<open>First-pass linking\<close>

text \<open>
  Distances are compared through \<open>math.sqrt\<close> of an integer sum of squares. The model
  compares the sums of squares themselves: the square root is strictly increasing, and
  for sums below \<open>2^50\<close> (coordinates below \<open>2^24\<close>) so is its double-precision rounding.
\<close>

definition hypotenuse_squared :: "point \<Rightarrow> point \<Rightarrow> int" where
  "hypotenuse_squared p q =
     (let x_distance = \<bar>fst q - fst p\<bar>; y_distance = \<bar>snd q - snd p\<bar>
      in x_distance ^ 2 + y_distance ^ 2)"

text \<open>
  The search for the centerpoint nearest to the current room's: centerpoints equal to the
  room's own are skipped. The result is None when every centerpoint was skipped, as
  \<open>which_centerpoint_is_closest\<close> is in the source.
\<close>

definition mk2_closest_centerpoint :: "point \<Rightarrow> point list \<Rightarrow> point option" where
  "mk2_closest_centerpoint alpha list_of_all_centerpoints =
     snd (fold (\<lambda>each_centerpoint (shortest, closest).
                  if fst alpha = fst each_centerpoint \<and> snd alpha = snd each_centerpoint
                  then (shortest, closest)
                  else (let hyp = hypotenuse_squared alpha each_centerpoint
                        in if (case shortest of None \<Rightarrow> True | Some s \<Rightarrow> hyp < s)
                           then (Some hyp, Some each_centerpoint)
                           else (shortest, closest)))
               list_of_all_centerpoints (None, None))"

text \<open>
  The two corridors between centerpoints \<open>a\<close> and \<open>b\<close>; \<open>which_direction_first\<close> is the
  result of \<open>random.randint(0, 1)\<close>, so it is 0 or 1.
\<close>

definition mk2_l_corridor :: "int \<Rightarrow> point \<Rightarrow> point \<Rightarrow> rectangle \<times> rectangle" where
  "mk2_l_corridor which_direction_first a b =
     (if which_direction_first = 0
      then (mk2_define_corridor Horizontal (fst a) (snd a) (fst b) (snd b),
            mk2_define_corridor Vertical (fst b) (snd b) (fst a) (snd a))
      else (mk2_define_corridor Horizontal (fst b) (snd b) (fst a) (snd a),
            mk2_define_corridor Vertical (fst a) (snd a) (fst b) (snd b)))"

text \<open>
  The scan of one color for the four centerpoints of a new link. The flags are
  \<open>do_these_centerpoints_connect_to_this_color\<close> and the four \<open>we_can_append_...\<close>.
\<close>

definition mk2_color_flags ::
  "point \<Rightarrow> point \<Rightarrow> point \<Rightarrow> point \<Rightarrow> point list \<Rightarrow> bool \<times> bool \<times> bool \<times> bool \<times> bool" where
  "mk2_color_flags a b h v each_color =
     fold (\<lambda>each_centerpoint (conn, ca, cb, ch, cv).
             (conn \<or> each_centerpoint = a \<or> each_centerpoint = b \<or> each_centerpoint = h
                \<or> each_centerpoint = v,
              ca \<and> each_centerpoint \<noteq> a, cb \<and> each_centerpoint \<noteq> b,
              ch \<and> each_centerpoint \<noteq> h, cv \<and> each_centerpoint \<noteq> v))
          each_color (False, True, True, True, True)"

definition mk2_extend_color ::
  "point \<Rightarrow> point \<Rightarrow> point \<Rightarrow> point \<Rightarrow> point list \<Rightarrow> point list \<times> bool" where
  "mk2_extend_color a b h v each_color =
     (case mk2_color_flags a b h v each_color of (conn, ca, cb, ch, cv) \<Rightarrow>
        if conn
        then (each_color @ (if ca then [a] else []) @ (if cb then [b] else [])
                @ (if ch then [h] else []) @ (if cv then [v] else []), True)
        else (each_color, False))"

definition mk2_update_colors ::
  "point \<Rightarrow> point \<Rightarrow> point \<Rightarrow> point \<Rightarrow> point list list \<Rightarrow> point list list" where
  "mk2_update_colors a b h v list_of_room_connection_colors =
     (if length list_of_room_connection_colors = 0 then [[a, b, h, v]]
      else (let extended = map (mk2_extend_color a b h v) list_of_room_connection_colors;
                does_this_room_fit_in_any_color = list_ex snd extended
            in if does_this_room_fit_in_any_color then map fst extended
               else map fst extended @ [[a, b, h, v]]))"

text \<open>
  The body of the first-pass loop. The state is \<open>list_of_all_centerpoints\<close>,
  \<open>list_of_room_connection_colors\<close>, \<open>list_of_new_corridors\<close> and the random stream.
  Subscripting \<open>which_centerpoint_is_closest\<close> when it is None raises TypeError.
\<close>

type_synonym mk2_link_state = "point list \<times> point list list \<times> rectangle list \<times> rng"

definition mk2_link_room :: "rectangle \<Rightarrow> mk2_link_state \<Rightarrow> py_error + mk2_link_state" where
  "mk2_link_room each_room s =
     (case s of (list_of_all_centerpoints, colors, list_of_new_corridors, g) \<Rightarrow>
      let alpha = mk2_return_the_center_of_this_rectangle each_room;
          which_centerpoint_is_closest = mk2_closest_centerpoint alpha list_of_all_centerpoints
      in bindE (randint 0 1 g) (\<lambda>(which_direction_first, g').
           case which_centerpoint_is_closest of
             None \<Rightarrow> Inl TypeError
           | Some beta \<Rightarrow>
               (case mk2_l_corridor which_direction_first alpha beta of
                  (new_horizontal_corridor, new_vertical_corridor) \<Rightarrow>
                    let hcp = mk2_return_the_center_of_this_rectangle new_horizontal_corridor;
                        vcp = mk2_return_the_center_of_this_rectangle new_vertical_corridor
                    in Inr (list_of_all_centerpoints @ [hcp, vcp],
                            mk2_update_colors alpha beta hcp vcp colors,
                            list_of_new_corridors @ [new_horizontal_corridor, new_vertical_corridor],
                            g'))))"

definition mk2_first_pass :: "rectangle list \<Rightarrow> rng \<Rightarrow> py_error + mk2_link_state" where
  "mk2_first_pass list_of_candidate_rooms g =
     foldE mk2_link_room list_of_candidate_rooms
       (map mk2_return_the_center_of_this_rectangle list_of_candidate_rooms, [], [], g)"

subsection \<open>Merging of colors\<close>

text \<open>The average centerpoint of a color; \<open>// len(color)\<close> raises on an empty color.\<close>

definition mk2_color_average :: "point list \<Rightarrow> py_error + point" where
  "mk2_color_average color =
     (let x_stack = fold (\<lambda>cp acc. acc + fst cp) color 0;
          y_stack = fold (\<lambda>cp acc. acc + snd cp) color 0
      in if length color = 0 then Inl ZeroDivisionError
         else Inr (x_stack div int (length color), y_stack div int (length color)))"

text \<open>
  The loop over \<open>range(1, len(list_of_room_connection_colors))\<close>: the index and average
  of the color whose average is nearest to alpha's.
\<close>

definition mk2_closest_color ::
  "point \<Rightarrow> point list list \<Rightarrow> py_error + (int \<times> nat \<times> point) option" where
  "mk2_closest_color alpha_average colors =
     foldE (\<lambda>each_beta_color_index best.
              bindE (mk2_color_average (colors ! each_beta_color_index)) (\<lambda>beta_average.
                let hyp = hypotenuse_squared alpha_average beta_average
                in Inr (if (case best of None \<Rightarrow> True | Some (s, _, _) \<Rightarrow> hyp < s)
                        then Some (hyp, each_beta_color_index, beta_average) else best)))
           [1..<length colors] None"

definition mk2_closest_member :: "point \<Rightarrow> point list \<Rightarrow> point option" where
  "mk2_closest_member target color =
     snd (fold (\<lambda>each_centerpoint (shortest, closest).
                  let hyp = hypotenuse_squared each_centerpoint target
                  in if (case shortest of None \<Rightarrow> True | Some s \<Rightarrow> hyp < s)
                     then (Some hyp, Some each_centerpoint)
                     else (shortest, closest))
               color (None, None))"

text \<open>
  One pass of the merging loop. The variables the source reads after its inner loops are
  assigned in the first pass of each of them; they are unassigned only for an empty
  list, which is NameError here.
\<close>

type_synonym mk2_merge_state = "point list list \<times> rectangle list \<times> rng"

definition mk2_merge_step :: "mk2_merge_state \<Rightarrow> py_error + mk2_merge_state" where
  "mk2_merge_step s =
     (case s of (colors, list_of_new_corridors, g) \<Rightarrow>
      if length colors > 1 then
        (let color_alpha = colors ! 0
         in bindE (mk2_color_average color_alpha) (\<lambda>alpha_average.
            bindE (mk2_closest_color alpha_average colors) (\<lambda>best.
              case best of
                None \<Rightarrow> Inl NameError
              | Some (hyp, which_beta_color_index_is_closest, beta_average) \<Rightarrow>
                  (let which_color_is_closest = colors ! which_beta_color_index_is_closest
                   in case mk2_closest_member beta_average color_alpha of
                        None \<Rightarrow> Inl NameError
                      | Some pa \<Rightarrow>
                         (case mk2_closest_member alpha_average which_color_is_closest of
                            None \<Rightarrow> Inl NameError
                          | Some pb \<Rightarrow>
                              bindE (randint 0 1 g) (\<lambda>(which_direction_first, g').
                                case mk2_l_corridor which_direction_first pa pb of
                                  (new_horizontal_corridor, new_vertical_corridor) \<Rightarrow>
                                    (let merged = colors[0 := color_alpha @ which_color_is_closest]
                                     in Inr (take which_beta_color_index_is_closest merged
                                               @ drop (Suc which_beta_color_index_is_closest) merged,
                                             list_of_new_corridors
                                               @ [new_horizontal_corridor, new_vertical_corridor],
                                             g'))))))))
      else Inr s)"

definition mk2_merge_colors :: "mk2_merge_state \<Rightarrow> py_error + mk2_merge_state" where
  "mk2_merge_colors s =
     (case s of (colors, list_of_new_corridors, g) \<Rightarrow>
        foldE (\<lambda>each_remaining_color. mk2_merge_step) [0..<length colors] s)"

subsection \<open>Rasterization\<close>

definition mk2_write_room :: "rectangle \<Rightarrow> grid \<Rightarrow> py_error + grid" where
  "mk2_write_room r m =
     (case r of (x, y, w, h) \<Rightarrow>
        foldE (\<lambda>each_room_height_unit.
                 foldE (\<lambda>each_room_width_unit m'.
                          grid_incr m' (y + each_room_height_unit) (x + each_room_width_unit))
                       (py_range 0 w))
              (py_range 0 h) m)"

definition mk2_write_corridor :: "rectangle \<Rightarrow> grid \<Rightarrow> py_error + grid" where
  "mk2_write_corridor r m =
     (case r of (x, y, w, h) \<Rightarrow>
        foldE (\<lambda>each_corridor_height_unit.
                 foldE (\<lambda>each_corridor_width_unit m'.
                          grid_incr_if_zero m' (y + each_corridor_height_unit)
                            (x + each_corridor_width_unit))
                       (py_range 0 w))
              (py_range 0 h) m)"

definition mk2_rasterize :: "room_generator \<Rightarrow> rectangle list \<Rightarrow> rectangle list \<Rightarrow> py_error + grid" where
  "mk2_rasterize self list_of_candidate_rooms list_of_new_corridors =
     bindE (foldE mk2_write_room list_of_candidate_rooms
              (blank_map (map_width self) (map_height self)))
           (foldE mk2_write_corridor list_of_new_corridors)"

subsection \<open>\<open>generate_noise\<close>\<close>

text \<open>Everything after the placement loop.\<close>

definition mk2_link_and_draw :: "room_generator \<Rightarrow> rectangle list \<Rightarrow> rng \<Rightarrow> py_error + grid" where
  "mk2_link_and_draw self list_of_candidate_rooms g =
     bindE (mk2_first_pass list_of_candidate_rooms g) (\<lambda>(cps, colors, corridors, g').
     bindE (mk2_merge_colors (colors, corridors, g')) (\<lambda>(colors', corridors', g'').
       mk2_rasterize self list_of_candidate_rooms corridors'))"

definition mk2_generate_noise ::
  "room_generator \<Rightarrow> int option \<Rightarrow> int option \<Rightarrow> int option \<Rightarrow> int option \<Rightarrow> int option
     \<Rightarrow> int option \<Rightarrow> rng \<Rightarrow> (py_error + grid) option" where
  "mk2_generate_noise self0 supplied_map_width supplied_map_height rmax rmin cmax cmin g =
     (let self = mk2_set_parameters self0 supplied_map_width supplied_map_height rmax rmin cmax cmin
      in case mk2_place_rooms self [] g of
           None \<Rightarrow> None
         | Some (Inl e) \<Rightarrow> Some (Inl e)
         | Some (Inr (list_of_candidate_rooms, g')) \<Rightarrow>
             Some (mk2_link_and_draw self list_of_candidate_rooms g'))"

section \<open>Vocabulary of the properties\<close>

text \<open>The grid cells \<open>(column, row)\<close> that a rectangle covers.\<close>

definition rect_cells :: "rectangle \<Rightarrow> point set" where
  "rect_cells r =
     (case r of (x, y, w, h) \<Rightarrow> {(cx, cy). x \<le> cx \<and> cx < x + w \<and> y \<le> cy \<and> cy < y + h})"

text \<open>A cell \<open>(column, row)\<close> of the grid is excavated when its value is at least 1.\<close>

definition excavated :: "grid \<Rightarrow> point \<Rightarrow> bool" where
  "excavated m p =
     (0 \<le> snd p \<and> snd p < int (length m) \<and> 0 \<le> fst p
      \<and> fst p < int (length (m ! nat (snd p))) \<and> m ! nat (snd p) ! nat (fst p) \<ge> 1)"

definition adjacent4 :: "point \<Rightarrow> point \<Rightarrow> bool" where
  "adjacent4 p q = (\<bar>fst p - fst q\<bar> + \<bar>snd p - snd q\<bar> = 1)"

text \<open>Paths of 4-adjacent steps that stay inside a set of cells.\<close>

inductive connected_in :: "point set \<Rightarrow> point \<Rightarrow> point \<Rightarrow> bool" for S :: "point set" where
  here: "p \<in> S \<Longrightarrow> connected_in S p p"
| step: "connected_in S p q \<Longrightarrow> r \<in> S \<Longrightarrow> adjacent4 q r \<Longrightarrow> connected_in S p r"

definition reachable :: "grid \<Rightarrow> point \<Rightarrow> point \<Rightarrow> bool" where
  "reachable m p q = connected_in {c. excavated m c} p q"

text \<open>A grid with \<open>H\<close> rows that all have length \<open>W\<close>.\<close>

definition grid_dims :: "grid \<Rightarrow> int \<Rightarrow> int \<Rightarrow> bool" where
  "grid_dims m W H = (int (length m) = H \<and> list_all (\<lambda>row. int (length row) = W) m)"

definition in_box :: "int \<Rightarrow> int \<Rightarrow> point \<Rightarrow> bool" where
  "in_box W H p = (0 \<le> fst p \<and> fst p < W \<and> 0 \<le> snd p \<and> snd p < H)"

definition cell_at :: "grid \<Rightarrow> point \<Rightarrow> int" where
  "cell_at m p = m ! nat (snd p) ! nat (fst p)"

definition connected_set :: "point set \<Rightarrow> bool" where
  "connected_set S = (\<forall>p\<in>S. \<forall>q\<in>S. connected_in S p q)"

definition room_fits :: "room_generator \<Rightarrow> rectangle \<Rightarrow> bool" where
  "room_fits self r =
     (case r of (x, y, w, h) \<Rightarrow>
        room_min_size self \<le> w \<and> w \<le> room_max_size self
        \<and> room_min_size self \<le> h \<and> h \<le> room_max_size self
        \<and> 1 \<le> x \<and> x \<le> (map_width self - 1) - w
        \<and> 1 \<le> y \<and> y \<le> (map_height self - 1) - h)"

definition mk2_rooms_placed :: "room_generator \<Rightarrow> rectangle list \<Rightarrow> bool" where
  "mk2_rooms_placed self rooms =
     (list_all (room_fits self) rooms
      \<and> sorted_wrt (\<lambda>old new. \<not> mk2_check_these_two_rectangles_for_intersection new old) rooms)"

definition cell_op :: "int \<Rightarrow> int \<Rightarrow> (int \<Rightarrow> int) \<Rightarrow> (grid \<Rightarrow> int \<Rightarrow> int \<Rightarrow> py_error + grid) \<Rightarrow> bool" where
  "cell_op W H \<phi> f =
     (\<forall>m r c. grid_dims m W H \<longrightarrow> 0 \<le> r \<longrightarrow> 0 \<le> c \<longrightarrow>
        (if r < H \<and> c < W
         then \<exists>m'. f m r c = Inr m' \<and> grid_dims m' W H
                \<and> (\<forall>p. in_box W H p \<longrightarrow>
                      cell_at m' p = (if p = (c, r) then \<phi> (cell_at m p) else cell_at m p))
         else f m r c = Inl IndexError))"

definition rect_in_box :: "int \<Rightarrow> int \<Rightarrow> rectangle \<Rightarrow> bool" where
  "rect_in_box W H r = (case r of (x, y, w, h) \<Rightarrow> 0 \<le> x \<and> 0 \<le> y \<and> x + w \<le> W \<and> y + h \<le> H)"

definition entries01 :: "grid \<Rightarrow> bool" where
  "entries01 m = list_all (list_all (\<lambda>v. v = 0 \<or> v = 1)) m"

definition cells_of :: "rectangle list \<Rightarrow> point set" where
  "cells_of rs = (\<Union>r\<in>set rs. rect_cells r)"

definition color_ok :: "point set \<Rightarrow> point list \<Rightarrow> bool" where
  "color_ok S c = (c \<noteq> [] \<and> set c \<subseteq> S \<and> (\<forall>p\<in>set c. \<forall>q\<in>set c. connected_in S p q))"

definition link_inv :: "int \<Rightarrow> int \<Rightarrow> point list \<Rightarrow> point list list \<Rightarrow> rectangle list \<Rightarrow> bool" where
  "link_inv W H cps colors corridors =
     ((\<forall>p\<in>set cps. in_box W H p)
      \<and> (\<forall>c\<in>set colors. color_ok (cells_of corridors) c)
      \<and> (\<forall>k\<in>set corridors. rect_in_box W H k))"

definition mk2_accepted_rooms :: "room_generator \<Rightarrow> rng \<Rightarrow> (py_error + rectangle list) option" where
  "mk2_accepted_rooms self g = map_option (map_sum id fst) (mk2_place_rooms self [] g)"

text \<open>The four cells that touch a cell.\<close>

definition neighbours4 :: "point \<Rightarrow> point list" where
  "neighbours4 p = [(fst p + 1, snd p), (fst p - 1, snd p), (fst p, snd p + 1), (fst p, snd p - 1)]"

text \<open>A list of cells is closed in a grid when no excavated cell outside it touches it.\<close>

definition closed_component :: "grid \<Rightarrow> point list \<Rightarrow> bool" where
  "closed_component m cs =
     list_all (\<lambda>c. list_all (\<lambda>c'. \<not> excavated m c' \<or> c' \<in> set cs) (neighbours4 c)) cs"

section \<open>Floating-point generators: shared operations\<close>

text \<open>
  The three terrain generators compute with Python floats. They are modelled in exact
  arithmetic over \<open>real\<close>: every float operation is the operation of the reals, without
  rounding. \<open>int(x)\<close> truncates toward zero, \<open>a % n\<close> on integers takes the sign of the
  divisor and raises ZeroDivisionError for \<open>n = 0\<close>, \<open>a / b\<close> raises ZeroDivisionError for
  \<open>b = 0\<close>.
\<close>

definition py_int :: "real \<Rightarrow> int" where
  "py_int x = (if 0 \<le> x then \<lfloor>x\<rfloor> else \<lceil>x\<rceil>)"

definition py_mod :: "int \<Rightarrow> int \<Rightarrow> py_error + int" where
  "py_mod a n = (if n = 0 then Inl ZeroDivisionError else Inr (a mod n))"

definition py_div :: "real \<Rightarrow> real \<Rightarrow> py_error + real" where
  "py_div a b = (if b = 0 then Inl ZeroDivisionError else Inr (a / b))"

definition py_getitem :: "'a list \<Rightarrow> int \<Rightarrow> py_error + 'a" where
  "py_getitem xs i = bindE (py_index xs i) (\<lambda>k. Inr (xs ! k))"

section \<open>PerlinNoiseGenerator\<close>

record perlin_generator =
  noise_array :: "real list list"
  noise_width :: int
  noise_height :: int

text \<open>\<open>__init__\<close>: \<open>noise_height = 0\<close> there is a local name; the attribute is first written by
  \<open>generate_noise\<close>.\<close>

definition perlin_init :: perlin_generator where
  "perlin_init = \<lparr> noise_array = [], noise_width = 0, noise_height = 0 \<rparr>"

definition perlin_smooth_noise :: "perlin_generator \<Rightarrow> real \<Rightarrow> real \<Rightarrow> py_error + real" where
  "perlin_smooth_noise self x y =
     (let fractional_element_of_x = x - real_of_int (py_int x);
          fractional_element_of_y = y - real_of_int (py_int y)
      in bindE (py_mod (py_int x + noise_width self) (noise_width self)) (\<lambda>x1.
         bindE (py_mod (py_int y + noise_height self) (noise_height self)) (\<lambda>y1.
         bindE (py_mod (x1 + noise_width self - 1) (noise_width self)) (\<lambda>x2.
         bindE (py_mod (y1 + noise_height self - 1) (noise_height self)) (\<lambda>y2.
         bindE (bindE (py_getitem (noise_array self) y1) (\<lambda>row. py_getitem row x1)) (\<lambda>n11.
         bindE (bindE (py_getitem (noise_array self) y2) (\<lambda>row. py_getitem row x1)) (\<lambda>n21.
         bindE (bindE (py_getitem (noise_array self) y1) (\<lambda>row. py_getitem row x2)) (\<lambda>n12.
         bindE (bindE (py_getitem (noise_array self) y2) (\<lambda>row. py_getitem row x2)) (\<lambda>n22.
         Inr (0
              + fractional_element_of_x * fractional_element_of_y * n11
              + fractional_element_of_x * (1 - fractional_element_of_y) * n21
              + (1 - fractional_element_of_x) * fractional_element_of_y * n12
              + (1 - fractional_element_of_x) * (1 - fractional_element_of_y) * n22))))))))))"

text \<open>The loop \<open>while (size >= 1)\<close> (\<open>siz\<close> is the variable \<open>size\<close>) of \<open>totally_justified_turbulence_function\<close>.\<close>

function perlin_turbulence_loop ::
  "perlin_generator \<Rightarrow> real \<Rightarrow> real \<Rightarrow> real \<Rightarrow> real \<Rightarrow> py_error + real" where
  "perlin_turbulence_loop self x y siz noise_value =
     (if siz \<ge> 1
      then (case bindE (py_div x siz) (\<lambda>xs. bindE (py_div y siz) (\<lambda>ys. perlin_smooth_noise self xs ys)) of
              Inl e \<Rightarrow> Inl e
            | Inr the_smooth_noise \<Rightarrow>
                perlin_turbulence_loop self x y (siz / 2) (noise_value + the_smooth_noise * siz))
      else Inr noise_value)"
  by pat_completeness auto

termination
proof (relation "measure (\<lambda>(self, x, y, siz, noise_value). nat \<lfloor>siz\<rfloor>)")
  show "wf (measure (\<lambda>(self, x, y, siz, noise_value). nat \<lfloor>siz\<rfloor>))" by simp
next
  fix self :: perlin_generator and x y siz noise_value x2 :: real
  assume s: "1 \<le> siz"
  have "\<lfloor>siz / 2\<rfloor> < \<lfloor>siz\<rfloor>"
  proof -
    have "1 \<le> \<lfloor>siz\<rfloor>" using s by linarith
    moreover have "siz < real_of_int \<lfloor>siz\<rfloor> + 1" by linarith
    ultimately have "siz / 2 < real_of_int \<lfloor>siz\<rfloor>" by linarith
    then show ?thesis by (simp add: floor_less_iff)
  qed
  moreover have "0 < \<lfloor>siz\<rfloor>" using s by linarith
  ultimately show "((self, x, y, siz / 2, noise_value + x2 * siz), (self, x, y, siz, noise_value))
        \<in> measure (\<lambda>(self, x, y, siz, noise_value). nat \<lfloor>siz\<rfloor>)"
    by simp
qed

declare perlin_turbulence_loop.simps [simp del]

definition perlin_totally_justified_turbulence_function ::
  "perlin_generator \<Rightarrow> real \<Rightarrow> real \<Rightarrow> real \<Rightarrow> py_error + real" where
  "perlin_totally_justified_turbulence_function self x y siz =
     (let initial_size = siz
      in bindE (perlin_turbulence_loop self x y siz 0) (\<lambda>noise_value.
         bindE (py_div noise_value initial_size) (\<lambda>noise_value.
         Inr (noise_value * 128))))"

text \<open>The rows of raw random numbers \<open>random.randint(0, 1000) / 1000.0\<close>.\<close>

definition perlin_noise_row :: "int \<Rightarrow> rng \<Rightarrow> py_error + (real list \<times> rng)" where
  "perlin_noise_row width g =
     foldE (\<lambda>each_column (noise_row_handler, g).
              bindE (randint 0 1000 g) (\<lambda>(v, g').
              Inr (noise_row_handler @ [real_of_int v / 1000], g')))
           (py_range 0 width) ([], g)"

definition perlin_noise_rows :: "int \<Rightarrow> int \<Rightarrow> rng \<Rightarrow> py_error + (real list list \<times> rng)" where
  "perlin_noise_rows width height g =
     foldE (\<lambda>each_row (rows, g).
              bindE (perlin_noise_row width g) (\<lambda>(noise_row_handler, g').
              Inr (rows @ [noise_row_handler], g')))
           (py_range 0 height) ([], g)"

definition perlin_result_row ::
  "perlin_generator \<Rightarrow> real \<Rightarrow> real \<Rightarrow> int \<Rightarrow> py_error + int list" where
  "perlin_result_row self frequency octaves each_y =
     foldE (\<lambda>each_x turbulated_noise_row_handler.
              bindE (perlin_totally_justified_turbulence_function self
                       (real_of_int each_x * frequency) (real_of_int each_y * frequency) octaves)
                (\<lambda>v. Inr (turbulated_noise_row_handler @ [py_int v])))
           (py_range 0 (noise_width self)) []"

text \<open>
  \<open>generate_noise(width, height, frequency, octaves)\<close>; the result is the generator's new
  state, the returned grid and the rest of the random stream.
\<close>

definition perlin_generate_noise ::
  "perlin_generator \<Rightarrow> int \<Rightarrow> int \<Rightarrow> real \<Rightarrow> real \<Rightarrow> rng
     \<Rightarrow> py_error + (perlin_generator \<times> int list list \<times> rng)" where
  "perlin_generate_noise self0 width height frequency octaves g =
     bindE (perlin_noise_rows width height g) (\<lambda>(rows, g').
       let self = \<lparr> noise_array = rows, noise_width = width, noise_height = height \<rparr>
       in bindE (foldE (\<lambda>each_y result.
                          bindE (perlin_result_row self frequency octaves each_y)
                            (\<lambda>row. Inr (result @ [row])))
                       (py_range 0 (noise_height self)) [])
            (\<lambda>result. Inr (self, result, g')))"

subsection \<open>PerlinNoiseGenerator: the raw noise\<close>

definition unit_rows :: "int \<Rightarrow> int \<Rightarrow> real list list \<Rightarrow> bool" where
  "unit_rows W H rows \<longleftrightarrow>
     length rows = nat H \<and> (\<forall>row\<in>set rows. length row = nat W \<and> (\<forall>v\<in>set row. 0 \<le> v \<and> v \<le> 1))"

section \<open>SimplexNoiseGenerator\<close>

text \<open>
  The class attributes \<open>grad3\<close>, \<open>F2\<close> and \<open>G2\<close>, and the object state: the fixed seed list,
  the shuffled and doubled \<open>noise_array\<close>, the hash number (None until it is computed from
  the length of the noise array) and the permutations table.
\<close>

definition grad3 :: "int list list" where
  "grad3 = [[1, 1, 0], [- 1, 1, 0], [1, - 1, 0], [- 1, - 1, 0],
            [1, 0, 1], [- 1, 0, 1], [1, 0, - 1], [- 1, 0, - 1],
            [0, 1, 1], [0, - 1, 1], [0, 1, - 1], [0, - 1, - 1]]"

definition F2 :: real where
  "F2 = 0.5 * (sqrt 3.0 - 1.0)"

definition G2 :: real where
  "G2 = (3.0 - sqrt 3.0) / 6.0"

record simplex_generator =
  noise_array_seed :: "int list"
  simplex_noise_array :: "int list"
  hash_number :: "int option"
  permutations_table :: "int list"


text \<open>
  \<open>generate_permutations_table\<close>: a hash number that is None becomes
  \<open>len(noise_array) // 2 - 1\<close>; the table gets one entry
  \<open>noise_array[each_number & hash_number]\<close> per position of the noise array.
\<close>

definition simplex_generate_permutations_table ::
  "simplex_generator \<Rightarrow> py_error + simplex_generator" where
  "simplex_generate_permutations_table self =
     (let hash = (case hash_number self of
                    None \<Rightarrow> (int (length (simplex_noise_array self)) div 2) - 1
                  | Some v \<Rightarrow> v)
      in bindE (foldE (\<lambda>each_number table.
                         bindE (py_getitem (simplex_noise_array self) (and each_number hash))
                           (\<lambda>v. Inr (table @ [v])))
                      (py_range 0 (int (length (simplex_noise_array self)))) [])
           (\<lambda>table. Inr (self\<lparr>hash_number := Some hash, permutations_table := table\<rparr>)))"

text \<open>\<open>double_the_noise_array\<close>: the noise array followed by itself.\<close>

definition simplex_double_the_noise_array :: "simplex_generator \<Rightarrow> simplex_generator" where
  "simplex_double_the_noise_array self =
     self\<lparr>simplex_noise_array :=
            fold (\<lambda>number_of_times_to_double_itself noise_array_handler.
                    noise_array_handler @ simplex_noise_array self)
                 (py_range 0 2) []\<rparr>"

text \<open>
  The loop \<open>while len(noise_array_seed_handler) > 1\<close> of
  \<open>randomize_the_noise_array_seed\<close>: a random position of the handler is appended to
  the new array and popped from the handler.
\<close>

function simplex_shuffle_loop ::
  "int list \<Rightarrow> int list \<Rightarrow> rng \<Rightarrow> py_error + (int list \<times> int list \<times> rng)" where
  "simplex_shuffle_loop noise_array_seed_handler new_noise_array g =
     (if length noise_array_seed_handler > 1
      then (case randint 0 (int (length noise_array_seed_handler) - 1) g of
              Inl e \<Rightarrow> Inl e
            | Inr (which_number_to_pick, g') \<Rightarrow>
                (case py_index noise_array_seed_handler which_number_to_pick of
                   Inl e \<Rightarrow> Inl e
                 | Inr k \<Rightarrow>
                     simplex_shuffle_loop
                       (take k noise_array_seed_handler @ drop (Suc k) noise_array_seed_handler)
                       (new_noise_array @ [noise_array_seed_handler ! k]) g'))
      else Inr (noise_array_seed_handler, new_noise_array, g))"
  by pat_completeness auto

termination
proof (relation "measure (\<lambda>(noise_array_seed_handler, new_noise_array, g). length noise_array_seed_handler)")
  show "wf (measure (\<lambda>(noise_array_seed_handler, new_noise_array, g). length noise_array_seed_handler))"
    by simp
next
  fix noise_array_seed_handler new_noise_array :: "int list" and g :: rng
    and x2 :: "int \<times> rng" and which_number_to_pick :: int and g' :: rng and k :: nat
  assume "py_index noise_array_seed_handler which_number_to_pick = Inr k"
  then have "k < length noise_array_seed_handler"
    by (auto simp: py_index_def Let_def split: if_splits)
  then show "((take k noise_array_seed_handler @ drop (Suc k) noise_array_seed_handler,
           new_noise_array @ [noise_array_seed_handler ! k], g'),
          noise_array_seed_handler, new_noise_array, g)
         \<in> measure (\<lambda>(noise_array_seed_handler, new_noise_array, g). length noise_array_seed_handler)"
    by simp
qed

declare simplex_shuffle_loop.simps [simp del]

text \<open>
  \<open>randomize_the_noise_array_seed\<close>: the seed list is copied, shuffled into a new noise
  array, doubled, and the permutations table is rebuilt from it. The object is written
  only after the shuffle, so an exception leaves it as it was.
\<close>

definition simplex_randomize_the_noise_array_seed ::
  "simplex_generator \<Rightarrow> rng \<Rightarrow> py_error + (simplex_generator \<times> rng)" where
  "simplex_randomize_the_noise_array_seed self g =
     (let noise_array_seed_handler = fold (\<lambda>each_number handler. handler @ [each_number])
                                          (noise_array_seed self) []
      in bindE (simplex_shuffle_loop noise_array_seed_handler [] g)
           (\<lambda>(noise_array_seed_handler, new_noise_array, g').
         bindE (py_getitem noise_array_seed_handler 0) (\<lambda>last_number.
           let new_noise_array = new_noise_array @ [last_number];
               self1 = simplex_double_the_noise_array (self\<lparr>simplex_noise_array := new_noise_array\<rparr>)
           in bindE (simplex_generate_permutations_table self1) (\<lambda>self2. Inr (self2, g')))))"


definition twodee_dot_product :: "int list \<Rightarrow> real \<Rightarrow> real \<Rightarrow> py_error + real" where
  "twodee_dot_product supplied_gradient x y =
     bindE (py_getitem supplied_gradient 0) (\<lambda>g0.
     bindE (py_getitem supplied_gradient 1) (\<lambda>g1.
     Inr (real_of_int g0 * x + real_of_int g1 * y)))"

text \<open>One corner's contribution in \<open>generate_raw_unoctaved_noise\<close>.\<close>

definition simplex_corner :: "int \<Rightarrow> real \<Rightarrow> real \<Rightarrow> py_error + real" where
  "simplex_corner gradient_i x y =
     (let t = 0.5 - x * x - y * y
      in if t < 0 then Inr 0
         else (let t = t * t
               in bindE (py_getitem grad3 gradient_i) (\<lambda>gradient.
                  bindE (twodee_dot_product gradient x y) (\<lambda>d. Inr (t * t * d)))))"

definition simplex_generate_raw_unoctaved_noise ::
  "simplex_generator \<Rightarrow> real \<Rightarrow> real \<Rightarrow> py_error + real" where
  "simplex_generate_raw_unoctaved_noise self supplied_x supplied_y =
     (let s = (supplied_x + supplied_y) * F2;
          i = py_int (supplied_x + s);
          j = py_int (supplied_y + s);
          t = real_of_int (i + j) * G2;
          unskewed_x_zero = real_of_int i - t;
          unskewed_y_zero = real_of_int j - t;
          x0 = supplied_x - unskewed_x_zero;
          y0 = supplied_y - unskewed_y_zero;
          i1 = (if x0 > y0 then 1 else 0);
          j1 = (if x0 > y0 then 0 else (1 :: int));
          x1 = x0 - real_of_int i1 + G2;
          y1 = y0 - real_of_int j1 + G2;
          x2 = x0 - 1.0 + 2.0 * G2;
          y2 = y0 - 1.0 + 2.0 * G2
      in case hash_number self of
           None \<Rightarrow> Inl TypeError
         | Some hash \<Rightarrow>
             (let ii = and i hash; jj = and j hash
              in bindE (py_getitem (permutations_table self) jj) (\<lambda>p0.
                 bindE (py_getitem (permutations_table self) (ii + p0)) (\<lambda>q0.
                 bindE (py_getitem (permutations_table self) (jj + j1)) (\<lambda>p1.
                 bindE (py_getitem (permutations_table self) (ii + i1 + p1)) (\<lambda>q1.
                 bindE (py_getitem (permutations_table self) (jj + 1)) (\<lambda>p2.
                 bindE (py_getitem (permutations_table self) (ii + 1 + p2)) (\<lambda>q2.
                 let gradient_i_zero = q0 mod 12;
                     gradient_i_one = q1 mod 12;
                     gradient_i_two = q2 mod 12
                 in bindE (simplex_corner gradient_i_zero x0 y0) (\<lambda>n0.
                    bindE (simplex_corner gradient_i_one x1 y1) (\<lambda>n1.
                    bindE (simplex_corner gradient_i_two x2 y2) (\<lambda>n2.
                    Inr ((70.0 * (n0 + n1 + n2) + 1) * 128.0))))))))))))"

text \<open>The body of \<open>for each_octave in range(octaves)\<close> of \<open>generate_octaved_noise\<close>; the
  state is \<open>(total_noise_for_this_cell, frequency, amplitude, max_amplitude)\<close>.\<close>

definition simplex_octave ::
  "simplex_generator \<Rightarrow> real \<Rightarrow> real \<Rightarrow> real \<Rightarrow> real \<times> real \<times> real \<times> real
     \<Rightarrow> py_error + (real \<times> real \<times> real \<times> real)" where
  "simplex_octave self supplied_x supplied_y persistence st =
     (case st of (total_noise_for_this_cell, frequency, amplitude, max_amplitude) \<Rightarrow>
        let new_x = supplied_x * frequency; new_y = supplied_y * frequency
        in bindE (simplex_generate_raw_unoctaved_noise self new_x new_y) (\<lambda>noise.
           Inr (total_noise_for_this_cell + noise * amplitude, frequency * 2.0,
                amplitude * persistence, max_amplitude + amplitude)))"

definition simplex_generate_octaved_noise ::
  "simplex_generator \<Rightarrow> real \<Rightarrow> real \<Rightarrow> real \<Rightarrow> int \<Rightarrow> real \<Rightarrow> py_error + real" where
  "simplex_generate_octaved_noise self supplied_x supplied_y scale octaves persistence =
     bindE (foldE (\<lambda>each_octave. simplex_octave self supplied_x supplied_y persistence)
                  (py_range 0 octaves) (0.0, scale, 1.0, 0.0))
       (\<lambda>(total_noise_for_this_cell, frequency, amplitude, max_amplitude).
          py_div total_noise_for_this_cell max_amplitude)"

definition simplex_noise_row ::
  "simplex_generator \<Rightarrow> int \<Rightarrow> real \<Rightarrow> int \<Rightarrow> real \<Rightarrow> int \<Rightarrow> py_error + real list" where
  "simplex_noise_row self supplied_x scale octaves persistence each_y =
     foldE (\<lambda>each_x new_row.
              bindE (simplex_generate_octaved_noise self (real_of_int each_x) (real_of_int each_y)
                       scale octaves persistence)
                (\<lambda>new_z_value. Inr (new_row @ [new_z_value])))
           (py_range 0 supplied_x) []"

text \<open>
  \<open>generate_noise(supplied_x, supplied_y, scale, octaves, persistence, randseed)\<close>. The
  method first calls \<open>randomize_the_noise_array_seed\<close> (which ignores its argument
  \<open>randseed\<close>) and then fills the rows; the loops only read the object. The result is the
  object after the call together with the outcome: an exception, or the returned grid
  and the rest of the random stream.
\<close>

definition simplex_generate_noise ::
  "simplex_generator \<Rightarrow> int \<Rightarrow> int \<Rightarrow> real \<Rightarrow> int \<Rightarrow> real \<Rightarrow> rng
     \<Rightarrow> simplex_generator \<times> (py_error + (real list list \<times> rng))" where
  "simplex_generate_noise self supplied_x supplied_y scale octaves persistence g =
     (case simplex_randomize_the_noise_array_seed self g of
        Inl e \<Rightarrow> (self, Inl e)
      | Inr (self1, g1) \<Rightarrow>
          (self1,
           bindE (foldE (\<lambda>each_y array_to_be_returned.
                           bindE (simplex_noise_row self1 supplied_x scale octaves persistence each_y)
                             (\<lambda>new_row. Inr (array_to_be_returned @ [new_row])))
                        (py_range 0 supplied_y) [])
             (\<lambda>array_to_be_returned. Inr (array_to_be_returned, g1))))"


definition simplex_hash :: "simplex_generator \<Rightarrow> int" where
  "simplex_hash self =
     (case hash_number self of None \<Rightarrow> int (length (noise_array_seed self)) - 1 | Some v \<Rightarrow> v)"

definition simplex_reshuffled :: "simplex_generator \<Rightarrow> int list \<Rightarrow> simplex_generator" where
  "simplex_reshuffled self p =
     self\<lparr>simplex_noise_array := p @ p,
          hash_number := Some (simplex_hash self),
          permutations_table :=
            map (\<lambda>n. (p @ p) ! nat (and n (simplex_hash self))) (py_range 0 (int (length (p @ p))))\<rparr>"

section \<open>PlasmaFractalGenerator\<close>

text \<open>
  The object state. Corner values, coordinates and the minimum separation distance are
  numbers (reals); the displacement and corner ranges are arguments of \<open>random.randint\<close>
  (integers). A saved cell is the list \<open>[x, y, z]\<close>.
\<close>

record plasma_generator =
  array_root :: int
  array_width :: int
  array_height :: int
  saved_noise_array :: "(real \<times> real \<times> real) list"
  corners_min :: int
  corners_max :: int
  displacement_min :: int
  displacement_max :: int
  minimum_separation_distance :: real
  uleft_corner :: real
  uright_corner :: real
  lleft_corner :: real
  lright_corner :: real



text \<open>
  \<open>plasma_recursion\<close>. The first argument is the number of nested calls that the
  interpreter still allows: when it is used up the call raises RecursionError (the
  recursion does not end by itself when the minimum separation distance is not
  positive). The last argument is the list \<open>self.saved_noise_array\<close> and the random
  stream.
\<close>

fun plasma_recursion ::
  "nat \<Rightarrow> plasma_generator \<Rightarrow> real \<Rightarrow> real \<Rightarrow> real \<Rightarrow> real \<Rightarrow> real \<Rightarrow> real \<Rightarrow> real \<Rightarrow> real
     \<Rightarrow> (real \<times> real \<times> real) list \<times> rng
     \<Rightarrow> py_error + ((real \<times> real \<times> real) list \<times> rng)" where
  "plasma_recursion 0 self x y supplied_width supplied_height
       uleft uright lleft lright st = Inl RecursionError"
| "plasma_recursion (Suc depth) self x y supplied_width supplied_height
       uleft uright lleft lright st =
     (let new_width = supplied_width / 2; new_height = supplied_height / 2
      in if supplied_width > minimum_separation_distance self
            \<or> supplied_height > minimum_separation_distance self
         then (case randint (displacement_min self) (displacement_max self) (snd st) of
                 Inl e \<Rightarrow> Inl e
               | Inr (random_midpoint_displacement, g1) \<Rightarrow>
                   (let mid_z = ((uleft + uright + lleft + lright) / 4)
                                  + real_of_int random_midpoint_displacement;
                        top_z = (uleft + uright) / 2;
                        bottom_z = (lleft + lright) / 2;
                        left_z = (uleft + lleft) / 2;
                        right_z = (uright + lright) / 2
                    in case plasma_recursion depth self x y new_width new_height
                              uleft top_z left_z mid_z (fst st, g1) of
                         Inl e \<Rightarrow> Inl e
                       | Inr st1 \<Rightarrow>
                     (case plasma_recursion depth self (x + new_width) y new_width new_height
                              top_z uright mid_z right_z st1 of
                         Inl e \<Rightarrow> Inl e
                       | Inr st2 \<Rightarrow>
                     (case plasma_recursion depth self x (y + new_height) new_width new_height
                              left_z mid_z lleft bottom_z st2 of
                         Inl e \<Rightarrow> Inl e
                       | Inr st3 \<Rightarrow>
                      plasma_recursion depth self (x + new_width) (y + new_height) new_width new_height
                              mid_z right_z bottom_z lright st3))))
         else (let new_z_value = (uleft + uright + lleft + lright) / 4
               in Inr (fst st @ [(x, y, new_z_value)], snd st)))"

text \<open>\<open>array_to_return[int(each_cell[1])][int(each_cell[0])] = each_cell[2]\<close>\<close>

definition plasma_write_cell ::
  "real \<times> real \<times> real \<Rightarrow> real list list \<Rightarrow> py_error + real list list" where
  "plasma_write_cell each_cell array_to_return =
     (case each_cell of (cx, cy, cz) \<Rightarrow>
        bindE (py_index array_to_return (py_int cy)) (\<lambda>i.
        bindE (py_index (array_to_return ! i) (py_int cx)) (\<lambda>j.
        Inr (array_to_return[i := (array_to_return ! i)[j := cz]]))))"

definition option_or :: "'a option \<Rightarrow> 'a \<Rightarrow> 'a" where
  "option_or v d = (case v of None \<Rightarrow> d | Some w \<Rightarrow> w)"

text \<open>
  \<open>generate_noise\<close>: an argument that is None takes its default from the object; the
  saved cells are emptied, filled by the recursion and written into a grid of \<open>-1\<close>. The
  result is the object after the call, the returned grid and the rest of the random
  stream.
\<close>

definition plasma_generate_noise ::
  "nat \<Rightarrow> plasma_generator \<Rightarrow> real option \<Rightarrow> real option \<Rightarrow> int option \<Rightarrow> int option
     \<Rightarrow> real option \<Rightarrow> real option \<Rightarrow> real option \<Rightarrow> real option \<Rightarrow> rng
     \<Rightarrow> py_error + (plasma_generator \<times> real list list \<times> rng)" where
  "plasma_generate_noise recursion_limit self x y supplied_width supplied_height
       uleft uright lleft lright g =
     (let x = option_or x 0; y = option_or y 0;
          supplied_width = option_or supplied_width (array_width self);
          supplied_height = option_or supplied_height (array_height self);
          uleft = option_or uleft (uleft_corner self);
          uright = option_or uright (uright_corner self);
          lleft = option_or lleft (lleft_corner self);
          lright = option_or lright (lright_corner self)
      in bindE (plasma_recursion recursion_limit self x y
                  (real_of_int supplied_width) (real_of_int supplied_height)
                  uleft uright lleft lright ([], g))
           (\<lambda>(saved, g').
         bindE (foldE plasma_write_cell saved
                  (map (\<lambda>each_array_height_index.
                          map (\<lambda>each_array_width_index. - 1) (py_range 0 supplied_width))
                       (py_range 0 supplied_height)))
           (\<lambda>array_to_return.
              Inr (self\<lparr>saved_noise_array := saved\<rparr>, array_to_return, g'))))"



section \<open>RoomFilledMapGenerator\<close>

text \<open>
  \<open>__init__\<close> stores the map width and height only: its parameters \<open>room_max_size\<close> and
  \<open>room_min_size\<close> are not saved, so the two attributes do not exist (None here) until
  \<open>generate_noise\<close> is given them; reading a missing attribute raises AttributeError.
\<close>

record roomfilled_generator =
  rf_map_width :: int
  rf_map_height :: int
  rf_room_max_size :: "int option"
  rf_room_min_size :: "int option"

definition rf_init :: "int \<Rightarrow> int \<Rightarrow> int \<Rightarrow> int \<Rightarrow> roomfilled_generator" where
  "rf_init supplied_map_width supplied_map_height max_size min_size =
     \<lparr>rf_map_width = supplied_map_width, rf_map_height = supplied_map_height,
      rf_room_max_size = None, rf_room_min_size = None\<rparr>"

definition rf_set_parameters ::
  "roomfilled_generator \<Rightarrow> int option \<Rightarrow> int option \<Rightarrow> int option \<Rightarrow> int option
     \<Rightarrow> roomfilled_generator" where
  "rf_set_parameters self supplied_map_width supplied_map_height max_size min_size =
     \<lparr>rf_map_width = (case supplied_map_width of None \<Rightarrow> rf_map_width self | Some v \<Rightarrow> v),
      rf_map_height = (case supplied_map_height of None \<Rightarrow> rf_map_height self | Some v \<Rightarrow> v),
      rf_room_max_size = (case max_size of None \<Rightarrow> rf_room_max_size self | Some v \<Rightarrow> Some v),
      rf_room_min_size = (case min_size of None \<Rightarrow> rf_room_min_size self | Some v \<Rightarrow> Some v)\<rparr>"

definition rf_attribute :: "int option \<Rightarrow> py_error + int" where
  "rf_attribute a = (case a of None \<Rightarrow> Inl AttributeError | Some v \<Rightarrow> Inr v)"

text \<open>The nine tiles around a tile: \<open>for each_nearby_tile_y in range(-1, 2): for
  each_nearby_tile_x in range(-1, 2)\<close>, with a body that updates a value.\<close>

definition rf_nearby :: "(int \<Rightarrow> int \<Rightarrow> 's \<Rightarrow> py_error + 's) \<Rightarrow> 's \<Rightarrow> py_error + 's" where
  "rf_nearby body s =
     foldE (\<lambda>each_nearby_tile_y.
              foldE (\<lambda>each_nearby_tile_x. body each_nearby_tile_y each_nearby_tile_x)
                    (py_range (- 1) 2))
           (py_range (- 1) 2) s"

text \<open>A room size that reaches the uncarved edge is cut back; a size cut below the
  minimum cancels the room.\<close>

definition rf_clip :: "int \<Rightarrow> int \<Rightarrow> int \<Rightarrow> int \<Rightarrow> int \<Rightarrow> int \<times> int" where
  "rf_clip each_index new_room_size edge min_size should_we_start_a_room_here =
     (if each_index + new_room_size \<ge> edge
      then (let difference = each_index + new_room_size - edge;
                new_room_size = new_room_size - difference
            in (new_room_size,
                if new_room_size < min_size then 0 else should_we_start_a_room_here))
      else (new_room_size, should_we_start_a_room_here))"

text \<open>The loop that counts how far the room may extend to the right; the state is
  \<open>(room_max_width, continue_incrementing_room_width)\<close>.\<close>

definition rf_width_step ::
  "grid \<Rightarrow> int \<Rightarrow> int \<Rightarrow> int \<Rightarrow> int \<times> bool \<Rightarrow> py_error + (int \<times> bool)" where
  "rf_width_step m each_row_index each_column_index each_next_unit_of_width st =
     (case st of (room_max_width, continue_incrementing_room_width) \<Rightarrow>
        bindE (rf_nearby
                 (\<lambda>each_nearby_tile_y each_nearby_tile_x (increment, continue).
                    if continue
                    then bindE (grid_get m (each_row_index + each_nearby_tile_y)
                                  ((each_column_index + each_nearby_tile_x) + each_next_unit_of_width))
                           (\<lambda>v. if v = 0 then Inr (True, continue) else Inr (increment, False))
                    else Inr (increment, False))
                 (False, continue_incrementing_room_width))
          (\<lambda>(should_we_increment_room_max_width_by_one_tile, continue).
             Inr (if should_we_increment_room_max_width_by_one_tile \<and> continue
                  then room_max_width + 1 else room_max_width, continue)))"

text \<open>The loop that counts the rows of the room that touch a carved tile.\<close>

definition rf_height_step :: "grid \<Rightarrow> int \<Rightarrow> int \<Rightarrow> int \<Rightarrow> int \<Rightarrow> py_error + int" where
  "rf_height_step m each_row_index each_column_index each_next_unit_of_height
       room_height_decrementor =
     bindE (rf_nearby
              (\<lambda>each_nearby_tile_y each_nearby_tile_x decrement.
                 bindE (grid_get m ((each_row_index + each_nearby_tile_y) + each_next_unit_of_height)
                          (each_column_index + each_nearby_tile_x))
                   (\<lambda>v. Inr (if v \<noteq> 0 then True else decrement)))
              False)
       (\<lambda>should_we_decrement_room_height_by_one_tile.
          Inr (if should_we_decrement_room_height_by_one_tile
               then room_height_decrementor + 1 else room_height_decrementor))"

text \<open>Everything the loop body decides before it writes: whether a room starts at this
  tile, and its width and height.\<close>

definition rf_plan ::
  "roomfilled_generator \<Rightarrow> grid \<Rightarrow> int \<Rightarrow> int \<Rightarrow> rng \<Rightarrow> py_error + (int \<times> int \<times> int \<times> rng)" where
  "rf_plan self m each_row_index each_column_index g =
     bindE (rf_attribute (rf_room_min_size self)) (\<lambda>min_size.
     bindE (rf_attribute (rf_room_max_size self)) (\<lambda>max_size.
     bindE (randint min_size max_size g) (\<lambda>(new_room_width, g1).
     bindE (randint min_size max_size g1) (\<lambda>(new_room_height, g2).
     bindE (py_getitem m each_row_index) (\<lambda>this_row.
       let (new_room_width, should) =
             rf_clip each_column_index new_room_width (int (length this_row) - 1) min_size 1;
           (new_room_height, should) =
             rf_clip each_row_index new_room_height (int (length m) - 1) min_size should
       in bindE (rf_nearby
                   (\<lambda>each_nearby_tile_y each_nearby_tile_x should.
                      bindE (grid_get m (each_row_index + each_nearby_tile_y)
                               (each_column_index + each_nearby_tile_x))
                        (\<lambda>v. Inr (if v \<noteq> 0 then 0 else should)))
                   should) (\<lambda>should.
          bindE (foldE (rf_width_step m each_row_index each_column_index)
                   (py_range 0 new_room_width) (0, True)) (\<lambda>(room_max_width, continue).
          let new_room_width = room_max_width;
              should = (if new_room_width < min_size then 0 else should)
          in bindE (foldE (rf_height_step m each_row_index each_column_index)
                      (py_range 0 new_room_height) 0) (\<lambda>room_height_decrementor.
             let new_room_height = new_room_height - room_height_decrementor;
                 should = (if new_room_height < min_size then 0 else should)
             in Inr (should, new_room_width, new_room_height, g2)))))))))"

definition rf_write_room :: "int \<Rightarrow> int \<Rightarrow> int \<Rightarrow> int \<Rightarrow> grid \<Rightarrow> py_error + grid" where
  "rf_write_room each_row_index each_column_index new_room_width new_room_height m =
     foldE (\<lambda>each_new_room_height_index.
              foldE (\<lambda>each_new_room_width_index m'.
                       grid_incr m' (each_row_index + each_new_room_height_index)
                         (each_column_index + each_new_room_width_index))
                    (py_range 0 new_room_width))
           (py_range 0 new_room_height) m"

text \<open>The body of the loop over the tiles.\<close>

definition rf_tile ::
  "roomfilled_generator \<Rightarrow> int \<Rightarrow> int \<Rightarrow> grid \<times> rng \<Rightarrow> py_error + (grid \<times> rng)" where
  "rf_tile self each_row_index each_column_index st =
     (case st of (new_dungeon_map, g) \<Rightarrow>
        bindE (rf_plan self new_dungeon_map each_row_index each_column_index g)
          (\<lambda>(should_we_start_a_room_here, new_room_width, new_room_height, g').
             if should_we_start_a_room_here = 1
             then bindE (rf_write_room each_row_index each_column_index
                           new_room_width new_room_height new_dungeon_map)
                    (\<lambda>m'. Inr (m', g'))
             else Inr (new_dungeon_map, g')))"

definition rf_row ::
  "roomfilled_generator \<Rightarrow> int \<Rightarrow> grid \<times> rng \<Rightarrow> py_error + (grid \<times> rng)" where
  "rf_row self each_row_index st =
     bindE (py_getitem (fst st) each_row_index) (\<lambda>this_row.
       foldE (rf_tile self each_row_index) (py_range 1 (int (length this_row) - 1)) st)"

text \<open>\<open>generate_noise\<close>: the result is the object after the call, the returned grid and
  the rest of the random stream.\<close>

definition rf_generate_noise ::
  "roomfilled_generator \<Rightarrow> int option \<Rightarrow> int option \<Rightarrow> int option \<Rightarrow> int option \<Rightarrow> rng
     \<Rightarrow> py_error + (roomfilled_generator \<times> grid \<times> rng)" where
  "rf_generate_noise self0 supplied_map_width supplied_map_height max_size min_size g =
     (let self = rf_set_parameters self0 supplied_map_width supplied_map_height
                   max_size min_size;
          new_dungeon_map = blank_map (rf_map_width self) (rf_map_height self)
      in bindE (foldE (rf_row self) (py_range 1 (int (length new_dungeon_map) - 1))
                  (new_dungeon_map, g))
           (\<lambda>(new_dungeon_map, g'). Inr (self, new_dungeon_map, g')))"

text \<open>A grid with the given number of rows, all of the given length.\<close>

definition has_shape :: "'a list list \<Rightarrow> int \<Rightarrow> int \<Rightarrow> bool" where
  "has_shape the_grid number_of_rows row_length =
     (int (length the_grid) = number_of_rows
      \<and> list_all (\<lambda>row. int (length row) = row_length) the_grid)"

section \<open>Auxiliary lemmas\<close>

subsection \<open>bindE and foldE\<close>

lemma bindE_Inr [simp]: "bindE (Inr x) f = f x"
  by (simp add: bindE_def)

lemma bindE_Inl [simp]: "bindE (Inl e) f = Inl e"
  by (simp add: bindE_def)

lemma bindE_eq_Inr: "bindE m f = Inr y \<longleftrightarrow> (\<exists>x. m = Inr x \<and> f x = Inr y)"
  by (cases m) auto

lemma foldE_append: "foldE f (xs @ ys) s = bindE (foldE f xs s) (foldE f ys)"
  by (induction xs arbitrary: s) (auto split: sum.splits)

lemma foldE_snoc_Inr:
  "foldE f (xs @ [x]) s = Inr s' \<longleftrightarrow> (\<exists>s1. foldE f xs s = Inr s1 \<and> f x s1 = Inr s')"
  by (cases "foldE f xs s") (auto simp: foldE_append split: sum.splits)

lemma foldE_invariant:
  assumes "foldE f xs s = Inr s'" "P s"
    and "\<And>x a b. x \<in> set xs \<Longrightarrow> P a \<Longrightarrow> f x a = Inr b \<Longrightarrow> P b"
  shows "P s'"
  using assms
proof (induction xs arbitrary: s)
  case Nil
  then show ?case by simp
next
  case (Cons x xs)
  from Cons.prems(1) obtain s1 where s1: "f x s = Inr s1" "foldE f xs s1 = Inr s'"
    by (auto split: sum.splits)
  have "P s1" using Cons.prems(2,3) s1(1) by auto
  then show ?case using Cons.IH[OF s1(2)] Cons.prems(3) by auto
qed

lemma py_range_0_Suc: "py_range 0 (int (Suc n)) = py_range 0 (int n) @ [int n]"
  by (simp add: py_range_def upto_rec2)

lemma py_range_empty: "b \<le> a \<Longrightarrow> py_range a b = []"
  by (simp add: py_range_def)

lemma py_range_0_nat: "py_range 0 w = py_range 0 (int (nat w))"
  by (cases "0 \<le> w") (simp_all add: py_range_def)

lemma set_py_range [simp]: "set (py_range a b) = {a..<b}"
  by (auto simp: py_range_def)

lemma length_py_range [simp]: "length (py_range 0 w) = nat w"
  by (simp add: py_range_def)

lemma randint_bounds:
  "randint a b g = Inr (v, g') \<Longrightarrow> a \<le> v \<and> v \<le> b"
proof -
  assume h: "randint a b g = Inr (v, g')"
  then have ab: "a \<le> b" and v: "v = a + int (g 0 mod nat (b - a + 1))"
    by (auto simp: randint_def split: if_splits)
  have "g 0 mod nat (b - a + 1) < nat (b - a + 1)" using ab by (intro mod_less_divisor) simp
  then show ?thesis using v ab by linarith
qed

lemma randint_0_1: "\<exists>v g'. randint 0 1 g = Inr (v, g') \<and> (v = 0 \<or> v = 1)"
proof -
  obtain v g' where h: "randint 0 1 g = Inr (v, g')" by (simp add: randint_def)
  from randint_bounds[OF h] have "v = 0 \<or> v = 1" by linarith
  with h show ?thesis by blast
qed

subsection \<open>Connectivity\<close>

lemma connected_in_mem: "connected_in S p q \<Longrightarrow> p \<in> S \<and> q \<in> S"
  by (induction rule: connected_in.induct) auto

lemma connected_in_trans:
  "connected_in S q r \<Longrightarrow> connected_in S p q \<Longrightarrow> connected_in S p r"
  by (induction rule: connected_in.induct) (auto intro: connected_in.step)

lemma adjacent4_sym: "adjacent4 p q \<Longrightarrow> adjacent4 q p"
  by (simp add: adjacent4_def abs_minus_commute)

lemma connected_in_step_left:
  "connected_in S q r \<Longrightarrow> p \<in> S \<Longrightarrow> adjacent4 p q \<Longrightarrow> connected_in S p r"
proof -
  assume a: "connected_in S q r" "p \<in> S" "adjacent4 p q"
  from a(1) have "q \<in> S" by (simp add: connected_in_mem)
  with a have "connected_in S p q" by (auto intro: connected_in.intros)
  with a(1) show ?thesis by (rule connected_in_trans)
qed

lemma connected_in_sym: "connected_in S p q \<Longrightarrow> connected_in S q p"
proof (induction rule: connected_in.induct)
  case (here p)
  then show ?case by (rule connected_in.here)
next
  case (step p q r)
  show ?case
    by (rule connected_in_step_left[OF step.IH step.hyps(2) adjacent4_sym[OF step.hyps(3)]])
qed

lemma connected_in_mono: "connected_in S p q \<Longrightarrow> S \<subseteq> T \<Longrightarrow> connected_in T p q"
  by (induction rule: connected_in.induct) (auto intro: connected_in.intros)

text \<open>A horizontal run of cells.\<close>

lemma connected_in_hrun:
  assumes "\<And>x. x1 \<le> x \<Longrightarrow> x \<le> x1 + int n \<Longrightarrow> (x, y) \<in> S"
  shows "connected_in S (x1, y) (x1 + int n, y)"
  using assms
proof (induction n)
  case 0
  then show ?case by (auto intro: connected_in.here)
next
  case (Suc n)
  have "connected_in S (x1, y) (x1 + int n, y)" using Suc by auto
  moreover have "(x1 + int (Suc n), y) \<in> S" using Suc.prems by auto
  moreover have "adjacent4 (x1 + int n, y) (x1 + int (Suc n), y)" by (simp add: adjacent4_def)
  ultimately show ?case by (rule connected_in.step)
qed

lemma connected_in_vrun:
  assumes "\<And>y. y1 \<le> y \<Longrightarrow> y \<le> y1 + int n \<Longrightarrow> (x, y) \<in> S"
  shows "connected_in S (x, y1) (x, y1 + int n)"
  using assms
proof (induction n)
  case 0
  then show ?case by (auto intro: connected_in.here)
next
  case (Suc n)
  have "connected_in S (x, y1) (x, y1 + int n)" using Suc by auto
  moreover have "(x, y1 + int (Suc n)) \<in> S" using Suc.prems by auto
  moreover have "adjacent4 (x, y1 + int n) (x, y1 + int (Suc n))" by (simp add: adjacent4_def)
  ultimately show ?case by (rule connected_in.step)
qed

lemma connected_in_hseg:
  assumes "\<And>x. min x1 x2 \<le> x \<Longrightarrow> x \<le> max x1 x2 \<Longrightarrow> (x, y) \<in> S"
  shows "connected_in S (x1, y) (x2, y)"
proof (cases "x1 \<le> x2")
  case True
  then have "x2 = x1 + int (nat (x2 - x1))" by simp
  moreover have "connected_in S (x1, y) (x1 + int (nat (x2 - x1)), y)"
    using True assms by (intro connected_in_hrun) auto
  ultimately show ?thesis by simp
next
  case False
  then have "x1 = x2 + int (nat (x1 - x2))" by simp
  moreover have "connected_in S (x2, y) (x2 + int (nat (x1 - x2)), y)"
    using False assms by (intro connected_in_hrun) auto
  ultimately have "connected_in S (x2, y) (x1, y)" by simp
  then show ?thesis by (rule connected_in_sym)
qed

lemma connected_in_vseg:
  assumes "\<And>y. min y1 y2 \<le> y \<Longrightarrow> y \<le> max y1 y2 \<Longrightarrow> (x, y) \<in> S"
  shows "connected_in S (x, y1) (x, y2)"
proof (cases "y1 \<le> y2")
  case True
  then have "y2 = y1 + int (nat (y2 - y1))" by simp
  moreover have "connected_in S (x, y1) (x, y1 + int (nat (y2 - y1)))"
    using True assms by (intro connected_in_vrun) auto
  ultimately show ?thesis by simp
next
  case False
  then have "y1 = y2 + int (nat (y1 - y2))" by simp
  moreover have "connected_in S (x, y2) (x, y2 + int (nat (y1 - y2)))"
    using False assms by (intro connected_in_vrun) auto
  ultimately have "connected_in S (x, y2) (x, y1)" by simp
  then show ?thesis by (rule connected_in_sym)
qed


lemma rect_cells_connected: "connected_set (rect_cells r)"
proof -
  obtain x y w h where r: "r = (x, y, w, h)" by (cases r) auto
  show ?thesis
    unfolding connected_set_def
  proof (intro ballI)
    fix p q assume p: "p \<in> rect_cells r" and q: "q \<in> rect_cells r"
    obtain px py where pp: "p = (px, py)" by (cases p) auto
    obtain qx qy where qq: "q = (qx, qy)" by (cases q) auto
    have 1: "connected_in (rect_cells r) (px, py) (qx, py)"
      using p q by (intro connected_in_hseg) (auto simp: rect_cells_def r pp qq)
    have 2: "connected_in (rect_cells r) (qx, py) (qx, qy)"
      using p q by (intro connected_in_vseg) (auto simp: rect_cells_def r pp qq)
    show "connected_in (rect_cells r) p q"
      unfolding pp qq by (rule connected_in_trans[OF 2 1])
  qed
qed

lemma connected_set_Un:
  assumes "connected_set A" "connected_set B" "c \<in> A" "c \<in> B"
  shows "connected_set (A \<union> B)"
  unfolding connected_set_def
proof (intro ballI)
  fix p q assume p: "p \<in> A \<union> B" and q: "q \<in> A \<union> B"
  have *: "connected_in (A \<union> B) x c" if "x \<in> A \<union> B" for x
  proof (cases "x \<in> A")
    case True
    then have "connected_in A x c" using assms by (simp add: connected_set_def)
    then show ?thesis by (rule connected_in_mono) simp
  next
    case False
    then have "x \<in> B" using that by simp
    then have "connected_in B x c" using assms by (simp add: connected_set_def)
    then show ?thesis by (rule connected_in_mono) simp
  qed
  have pc: "connected_in (A \<union> B) p c" by (rule *[OF p])
  have cq: "connected_in (A \<union> B) c q" by (rule connected_in_sym[OF *[OF q]])
  show "connected_in (A \<union> B) p q" by (rule connected_in_trans[OF cq pc])
qed

subsection \<open>The intersection test\<close>

lemma mk2_check_complete:
  assumes "p \<in> rect_cells a" "p \<in> rect_cells b"
  shows "mk2_check_these_two_rectangles_for_intersection a b"
proof -
  obtain ax ay aw ah where a: "a = (ax, ay, aw, ah)" by (cases a) auto
  obtain bx by' bw bh where b: "b = (bx, by', bw, bh)" by (cases b) auto
  obtain px py where p: "p = (px, py)" by (cases p) auto
  from assms have *: "ax \<le> px" "px < ax + aw" "ay \<le> py" "py < ay + ah"
     "bx \<le> px" "px < bx + bw" "by' \<le> py" "py < by' + bh"
    by (auto simp: rect_cells_def a b p)
  show ?thesis
    unfolding mk2_check_these_two_rectangles_for_intersection_def a b Let_def
    using * by (simp; linarith)
qed

lemma mk2_same_center_aux:
  fixes ax ay ca cb ra rb bx "by" da db sa sb :: int
  assumes "0 \<le> ca" "0 \<le> cb" "0 \<le> da" "0 \<le> db"
     "ra = 0 \<or> ra = 1" "rb = 0 \<or> rb = 1" "sa = 0 \<or> sa = 1" "sb = 0 \<or> sb = 1"
     "ax + ca = bx + da" "ay + cb = by + db"
  shows "mk2_check_these_two_rectangles_for_intersection
           (ax, ay, 2 * ca + ra, 2 * cb + rb) (bx, by, 2 * da + sa, 2 * db + sb)"
  unfolding mk2_check_these_two_rectangles_for_intersection_def Let_def
  using assms by (simp; smt (verit))

lemma mk2_same_center_intersect:
  assumes "mk2_return_the_center_of_this_rectangle (ax, ay, aw, ah)
             = mk2_return_the_center_of_this_rectangle (bx, by, bw, bh)"
    and "0 \<le> aw" "0 \<le> ah" "0 \<le> bw" "0 \<le> bh"
  shows "mk2_check_these_two_rectangles_for_intersection (ax, ay, aw, ah) (bx, by, bw, bh)"
proof -
  have e: "aw = 2 * (aw div 2) + aw mod 2" "ah = 2 * (ah div 2) + ah mod 2"
      "bw = 2 * (bw div 2) + bw mod 2" "bh = 2 * (bh div 2) + bh mod 2"
    by simp_all
  have c: "ax + aw div 2 = bx + bw div 2" "ay + ah div 2 = by + bh div 2"
    using assms(1) by (simp_all add: mk2_return_the_center_of_this_rectangle_def)
  have "mk2_check_these_two_rectangles_for_intersection
          (ax, ay, 2 * (aw div 2) + aw mod 2, 2 * (ah div 2) + ah mod 2)
          (bx, by, 2 * (bw div 2) + bw mod 2, 2 * (bh div 2) + bh mod 2)"
  proof (rule mk2_same_center_aux)
    show "0 \<le> aw div 2" "0 \<le> ah div 2" "0 \<le> bw div 2" "0 \<le> bh div 2"
      using assms(2-5) by simp_all
    show "aw mod 2 = 0 \<or> aw mod 2 = 1" "ah mod 2 = 0 \<or> ah mod 2 = 1"
      "bw mod 2 = 0 \<or> bw mod 2 = 1" "bh mod 2 = 0 \<or> bh mod 2 = 1" by presburger+
    show "ax + aw div 2 = bx + bw div 2" "ay + ah div 2 = by + bh div 2" by (rule c)+
  qed
  then show ?thesis using e by simp
qed

subsection \<open>Corridors\<close>

lemma rect_cells_horizontal:
  "rect_cells (mk2_define_corridor Horizontal x y x2 y2)
     = {(cx, cy). min x x2 \<le> cx \<and> cx \<le> max x x2 \<and> cy = y}"
  by (auto simp: rect_cells_def mk2_define_corridor_def Let_def)

lemma rect_cells_vertical:
  "rect_cells (mk2_define_corridor Vertical x y x2 y2)
     = {(cx, cy). min y y2 \<le> cy \<and> cy \<le> max y y2 \<and> cx = x}"
  by (auto simp: rect_cells_def mk2_define_corridor_def Let_def)

lemma center_horizontal:
  "mk2_return_the_center_of_this_rectangle (mk2_define_corridor Horizontal x y x2 y2)
     \<in> rect_cells (mk2_define_corridor Horizontal x y x2 y2)"
  by (auto simp: rect_cells_def mk2_define_corridor_def Let_def
        mk2_return_the_center_of_this_rectangle_def)

lemma center_vertical:
  "mk2_return_the_center_of_this_rectangle (mk2_define_corridor Vertical x y x2 y2)
     \<in> rect_cells (mk2_define_corridor Vertical x y x2 y2)"
  by (auto simp: rect_cells_def mk2_define_corridor_def Let_def
        mk2_return_the_center_of_this_rectangle_def)

lemma mk2_l_corridor_props:
  assumes hv: "mk2_l_corridor d a b = (hc, vc)"
  defines "U \<equiv> rect_cells hc \<union> rect_cells vc"
  shows "a \<in> U" "b \<in> U"
    "mk2_return_the_center_of_this_rectangle hc \<in> U"
    "mk2_return_the_center_of_this_rectangle vc \<in> U"
    "connected_set U"
    "in_box W H a \<Longrightarrow> in_box W H b \<Longrightarrow> p \<in> U \<Longrightarrow> in_box W H p"
proof -
  obtain ax ay where a: "a = (ax, ay)" by (cases a) auto
  obtain bx "by" where b: "b = (bx, by)" by (cases b) auto
  consider (z) "d = 0" | (nz) "d \<noteq> 0" by blast
  then have main: "a \<in> U \<and> b \<in> U
      \<and> mk2_return_the_center_of_this_rectangle hc \<in> rect_cells hc
      \<and> mk2_return_the_center_of_this_rectangle vc \<in> rect_cells vc
      \<and> (\<exists>c. c \<in> rect_cells hc \<and> c \<in> rect_cells vc)
      \<and> (in_box W H a \<longrightarrow> in_box W H b \<longrightarrow> p \<in> U \<longrightarrow> in_box W H p)"
  proof cases
    case z
    then have hc: "hc = mk2_define_corridor Horizontal ax ay bx by"
      and vc: "vc = mk2_define_corridor Vertical bx by ax ay"
      using hv by (simp_all add: mk2_l_corridor_def a b)
    have "(bx, ay) \<in> rect_cells hc" "(bx, ay) \<in> rect_cells vc"
      by (auto simp: hc vc rect_cells_horizontal rect_cells_vertical)
    then have "\<exists>c. c \<in> rect_cells hc \<and> c \<in> rect_cells vc" by blast
    moreover have "a \<in> U" "b \<in> U"
      by (auto simp: U_def hc vc a b rect_cells_horizontal rect_cells_vertical)
    moreover have "in_box W H a \<longrightarrow> in_box W H b \<longrightarrow> p \<in> U \<longrightarrow> in_box W H p"
      by (auto simp: U_def hc vc a b rect_cells_horizontal rect_cells_vertical in_box_def)
    ultimately show ?thesis
      using center_horizontal center_vertical unfolding hc vc by blast
  next
    case nz
    then have hc: "hc = mk2_define_corridor Horizontal bx by ax ay"
      and vc: "vc = mk2_define_corridor Vertical ax ay bx by"
      using hv by (simp_all add: mk2_l_corridor_def a b)
    have "(ax, by) \<in> rect_cells hc" "(ax, by) \<in> rect_cells vc"
      by (auto simp: hc vc rect_cells_horizontal rect_cells_vertical)
    then have "\<exists>c. c \<in> rect_cells hc \<and> c \<in> rect_cells vc" by blast
    moreover have "a \<in> U" "b \<in> U"
      by (auto simp: U_def hc vc a b rect_cells_horizontal rect_cells_vertical)
    moreover have "in_box W H a \<longrightarrow> in_box W H b \<longrightarrow> p \<in> U \<longrightarrow> in_box W H p"
      by (auto simp: U_def hc vc a b rect_cells_horizontal rect_cells_vertical in_box_def)
    ultimately show ?thesis
      using center_horizontal center_vertical unfolding hc vc by blast
  qed
  show "a \<in> U" "b \<in> U" using main by auto
  show "mk2_return_the_center_of_this_rectangle hc \<in> U"
    "mk2_return_the_center_of_this_rectangle vc \<in> U" using main by (auto simp: U_def)
  show "in_box W H a \<Longrightarrow> in_box W H b \<Longrightarrow> p \<in> U \<Longrightarrow> in_box W H p" using main by blast
  from main obtain c where "c \<in> rect_cells hc" "c \<in> rect_cells vc" by blast
  then show "connected_set U"
    unfolding U_def by (intro connected_set_Un[where c = c] rect_cells_connected)
qed

subsection \<open>Placement\<close>

lemma mk2_should_append_fold:
  "fold (\<lambda>each_other_room ok. if mk2_check_these_two_rectangles_for_intersection c each_other_room
                              then False else ok) rooms acc
   = (acc \<and> (\<forall>r\<in>set rooms. \<not> mk2_check_these_two_rectangles_for_intersection c r))"
  by (induction rooms arbitrary: acc) auto

lemma mk2_rooms_placed_Nil [simp]: "mk2_rooms_placed self []"
  by (simp add: mk2_rooms_placed_def)

lemma mk2_room_attempt_placed:
  assumes "mk2_room_attempt self (rooms, g) = Inr (rooms', g')" "mk2_rooms_placed self rooms"
  shows "mk2_rooms_placed self rooms'"
proof -
  from assms(1) obtain w g1 h g2 x g3 y g4 where
    w: "randint (room_min_size self) (room_max_size self) g = Inr (w, g1)" and
    h: "randint (room_min_size self) (room_max_size self) g1 = Inr (h, g2)" and
    x: "randint 1 ((map_width self - 1) - w) g2 = Inr (x, g3)" and
    y: "randint 1 ((map_height self - 1) - h) g3 = Inr (y, g4)" and
    r: "rooms' = (if (\<forall>r\<in>set rooms. \<not> mk2_check_these_two_rectangles_for_intersection (x, y, w, h) r)
                 then rooms @ [(x, y, w, h)] else rooms)"
    by (auto simp: mk2_room_attempt_def bindE_eq_Inr mk2_should_append_fold Let_def)
  have fits: "room_fits self (x, y, w, h)"
    using randint_bounds[OF w] randint_bounds[OF h] randint_bounds[OF x] randint_bounds[OF y]
    by (simp add: room_fits_def)
  show ?thesis
    using assms(2) fits unfolding r
    by (auto simp: mk2_rooms_placed_def sorted_wrt_append)
qed

lemma mk2_room_batch_placed:
  assumes "mk2_room_batch self (rooms, g) = Inr (rooms', g')" "mk2_rooms_placed self rooms"
  shows "mk2_rooms_placed self rooms'"
proof -
  have "mk2_rooms_placed self (fst (rooms', g'))"
  proof (rule foldE_invariant[where P = "\<lambda>s. mk2_rooms_placed self (fst s)"])
    show "foldE (\<lambda>each_new_room_attempt. mk2_room_attempt self)
            (py_range 0 (room_max_count self)) (rooms, g) = Inr (rooms', g')"
      using assms(1) by (simp add: mk2_room_batch_def)
    show "mk2_rooms_placed self (fst (rooms, g))" using assms(2) by simp
    show "\<And>x a b. mk2_rooms_placed self (fst a) \<Longrightarrow> mk2_room_attempt self a = Inr b
            \<Longrightarrow> mk2_rooms_placed self (fst b)"
      using mk2_room_attempt_placed by (metis prod.collapse)
  qed
  then show ?thesis by simp
qed

lemma mk2_place_rooms_placed_aux:
  assumes "mk2_place_rooms self rooms g = Some res"
  shows "\<forall>rooms' g'. mk2_rooms_placed self rooms \<longrightarrow> res = Inr (rooms', g')
          \<longrightarrow> mk2_rooms_placed self rooms' \<and> room_min_count self \<le> int (length rooms')"
proof (rule mk2_place_rooms.raw_induct[where P = "\<lambda>self rooms g res.
          \<forall>rooms' g'. mk2_rooms_placed self rooms \<longrightarrow> res = Inr (rooms', g')
          \<longrightarrow> mk2_rooms_placed self rooms' \<and> room_min_count self \<le> int (length rooms')",
        OF _ assms])
  fix place :: "room_generator \<Rightarrow> rectangle list \<Rightarrow> rng \<Rightarrow> (py_error + (rectangle list \<times> rng)) option"
  fix self rooms g res
  assume IH: "\<And>self rooms g res. place self rooms g = Some res \<Longrightarrow>
          \<forall>rooms' g'. mk2_rooms_placed self rooms \<longrightarrow> res = Inr (rooms', g')
          \<longrightarrow> mk2_rooms_placed self rooms' \<and> room_min_count self \<le> int (length rooms')"
  assume body: "(if int (length rooms) < room_min_count self
      then case mk2_room_batch self (rooms, g) of
             Inl e \<Rightarrow> Some (Inl e)
           | Inr (rooms', g') \<Rightarrow>
               place self (if int (length rooms') < room_min_count self then [] else rooms') g'
      else Some (Inr (rooms, g))) = Some res"
  show "\<forall>rooms' g'. mk2_rooms_placed self rooms \<longrightarrow> res = Inr (rooms', g')
          \<longrightarrow> mk2_rooms_placed self rooms' \<and> room_min_count self \<le> int (length rooms')"
  proof (intro allI impI)
    fix rooms' g'
    assume pl: "mk2_rooms_placed self rooms" and res: "res = Inr (rooms', g')"
    show "mk2_rooms_placed self rooms' \<and> room_min_count self \<le> int (length rooms')"
    proof (cases "int (length rooms) < room_min_count self")
      case False
      with body res pl show ?thesis by auto
    next
      case True
      with body res obtain r1 g1 where
        b: "mk2_room_batch self (rooms, g) = Inr (r1, g1)" and
        rec: "place self (if int (length r1) < room_min_count self then [] else r1) g1 = Some res"
        by (auto split: sum.splits)
      have "mk2_rooms_placed self r1" by (rule mk2_room_batch_placed[OF b pl])
      then have p1: "mk2_rooms_placed self (if int (length r1) < room_min_count self then [] else r1)"
        by simp
      from IH[OF rec] p1 res show ?thesis by blast
    qed
  qed
qed

lemma mk2_place_rooms_placed:
  assumes "mk2_place_rooms self rooms g = Some (Inr (rooms', g'))" "mk2_rooms_placed self rooms"
  shows "mk2_rooms_placed self rooms'" "room_min_count self \<le> int (length rooms')"
  using mk2_place_rooms_placed_aux[OF assms(1)] assms(2) by blast+

subsection \<open>Reading and writing one cell\<close>

lemma py_index_nonneg:
  "0 \<le> i \<Longrightarrow> py_index xs i = (if i < int (length xs) then Inr (nat i) else Inl IndexError)"
  by (simp add: py_index_def Let_def)

lemma grid_dims_row: "grid_dims m W H \<Longrightarrow> 0 \<le> r \<Longrightarrow> r < H \<Longrightarrow> int (length (m ! nat r)) = W"
  by (auto simp: grid_dims_def list_all_length)

lemma grid_get_nonneg:
  assumes "grid_dims m W H" "0 \<le> r" "0 \<le> c"
  shows "grid_get m r c = (if r < H \<and> c < W then Inr (cell_at m (c, r)) else Inl IndexError)"
proof (cases "r < H")
  case True
  have l: "int (length m) = H" using assms(1) by (simp add: grid_dims_def)
  have w: "int (length (m ! nat r)) = W" by (rule grid_dims_row[OF assms(1,2) True])
  show ?thesis using True assms l w
    by (simp add: grid_get_def py_index_nonneg cell_at_def)
next
  case False
  have l: "int (length m) = H" using assms(1) by (simp add: grid_dims_def)
  show ?thesis using False assms l by (simp add: grid_get_def py_index_nonneg)
qed

lemma grid_set_nonneg:
  assumes "grid_dims m W H" "0 \<le> r" "0 \<le> c" "r < H" "c < W"
  shows "grid_set m r c v = Inr (m[nat r := (m ! nat r)[nat c := v]])"
proof -
  have l: "int (length m) = H" using assms(1) by (simp add: grid_dims_def)
  have w: "int (length (m ! nat r)) = W" by (rule grid_dims_row[OF assms(1,2,4)])
  show ?thesis using assms l w by (simp add: grid_set_def py_index_nonneg)
qed

lemma grid_dims_update:
  assumes "grid_dims m W H" "i < length m"
  shows "grid_dims (m[i := (m ! i)[j := v]]) W H"
  using assms by (auto simp: grid_dims_def list_all_length nth_list_update)

lemma cell_at_update:
  assumes "grid_dims m W H" "0 \<le> r" "r < H" "0 \<le> c" "c < W" "in_box W H p"
  shows "cell_at (m[nat r := (m ! nat r)[nat c := v]]) p = (if p = (c, r) then v else cell_at m p)"
proof -
  obtain px py where p: "p = (px, py)" by (cases p) auto
  have l: "int (length m) = H" using assms(1) by (simp add: grid_dims_def)
  have w: "int (length (m ! nat r)) = W" by (rule grid_dims_row[OF assms(1,2,3)])
  have pb: "0 \<le> px" "px < W" "0 \<le> py" "py < H" using assms(6) by (simp_all add: in_box_def p)
  show ?thesis
  proof (cases "py = r")
    case True
    then show ?thesis using assms(2-5) l w pb
      by (auto simp: cell_at_def p nth_list_update)
  next
    case False
    then have "nat py \<noteq> nat r" using pb assms(2) by auto
    then show ?thesis using False by (simp add: cell_at_def p)
  qed
qed

lemma cell_op_incr: "cell_op W H (\<lambda>v. v + 1) grid_incr"
  unfolding cell_op_def
proof (intro allI impI)
  fix m :: grid and r c :: int
  assume d: "grid_dims m W H" and r: "0 \<le> r" and c: "0 \<le> c"
  show "if r < H \<and> c < W
        then \<exists>m'. grid_incr m r c = Inr m' \<and> grid_dims m' W H
               \<and> (\<forall>p. in_box W H p \<longrightarrow> cell_at m' p = (if p = (c, r) then cell_at m p + 1 else cell_at m p))
        else grid_incr m r c = Inl IndexError"
  proof (cases "r < H \<and> c < W")
    case True
    have l: "int (length m) = H" using d by (simp add: grid_dims_def)
    have e: "grid_incr m r c = Inr (m[nat r := (m ! nat r)[nat c := cell_at m (c, r) + 1]])"
      using True by (simp add: grid_incr_def grid_get_nonneg[OF d r c] grid_set_nonneg[OF d r c])
    have "grid_dims (m[nat r := (m ! nat r)[nat c := cell_at m (c, r) + 1]]) W H"
      using True l r by (intro grid_dims_update[OF d]) auto
    moreover have "\<forall>p. in_box W H p \<longrightarrow>
        cell_at (m[nat r := (m ! nat r)[nat c := cell_at m (c, r) + 1]]) p
          = (if p = (c, r) then cell_at m p + 1 else cell_at m p)"
      using True r c by (auto simp: cell_at_update[OF d])
    ultimately show ?thesis using True e by simp
  next
    case False
    have "grid_get m r c = Inl IndexError"
      unfolding grid_get_nonneg[OF d r c] by (simp only: False if_False)
    then have "grid_incr m r c = Inl IndexError" by (simp add: grid_incr_def)
    then show ?thesis by (simp only: False if_False)
  qed
qed

lemma cell_op_incr_if_zero: "cell_op W H (\<lambda>v. if v = 0 then v + 1 else v) grid_incr_if_zero"
  unfolding cell_op_def
proof (intro allI impI)
  fix m :: grid and r c :: int
  assume d: "grid_dims m W H" and r: "0 \<le> r" and c: "0 \<le> c"
  from cell_op_incr[of W H] d r c
  have inc: "if r < H \<and> c < W
        then \<exists>m'. grid_incr m r c = Inr m' \<and> grid_dims m' W H
               \<and> (\<forall>p. in_box W H p \<longrightarrow> cell_at m' p = (if p = (c, r) then cell_at m p + 1 else cell_at m p))
        else grid_incr m r c = Inl IndexError"
    unfolding cell_op_def by blast
  show "if r < H \<and> c < W
        then \<exists>m'. grid_incr_if_zero m r c = Inr m' \<and> grid_dims m' W H
               \<and> (\<forall>p. in_box W H p \<longrightarrow> cell_at m' p
                      = (if p = (c, r) then (if cell_at m p = 0 then cell_at m p + 1 else cell_at m p)
                         else cell_at m p))
        else grid_incr_if_zero m r c = Inl IndexError"
  proof (cases "r < H \<and> c < W")
    case True
    show ?thesis
    proof (cases "cell_at m (c, r) = 0")
      case z: True
      with True inc show ?thesis
        by (auto simp: grid_incr_if_zero_def grid_get_nonneg[OF d r c])
    next
      case nz: False
      with True d show ?thesis
        by (auto simp: grid_incr_if_zero_def grid_get_nonneg[OF d r c])
    qed
  next
    case False
    have "grid_get m r c = Inl IndexError"
      unfolding grid_get_nonneg[OF d r c] by (simp only: False if_False)
    then have "grid_incr_if_zero m r c = Inl IndexError" by (simp add: grid_incr_if_zero_def)
    then show ?thesis by (simp only: False if_False)
  qed
qed

subsection \<open>The loops over one row and over a rectangle\<close>

lemma row_loop:
  assumes op: "cell_op W H \<phi> f" and d: "grid_dims m W H" and R: "0 \<le> R" and x: "0 \<le> x"
  shows "if n = 0 \<or> (R < H \<and> x + int n \<le> W)
         then \<exists>m'. foldE (\<lambda>wu m'. f m' R (x + wu)) (py_range 0 (int n)) m = Inr m'
                \<and> grid_dims m' W H
                \<and> (\<forall>p. in_box W H p \<longrightarrow> cell_at m' p
                      = (if snd p = R \<and> x \<le> fst p \<and> fst p < x + int n then \<phi> (cell_at m p)
                         else cell_at m p))
         else \<exists>e. foldE (\<lambda>wu m'. f m' R (x + wu)) (py_range 0 (int n)) m = Inl e"
proof (induction n)
  case 0
  show ?case using d by (simp add: py_range_empty)
next
  case (Suc n)
  let ?F = "\<lambda>wu m'. f m' R (x + wu)"
  have app: "foldE ?F (py_range 0 (int (Suc n))) m = bindE (foldE ?F (py_range 0 (int n)) m) (?F (int n))"
    unfolding py_range_0_Suc foldE_append by (simp add: bindE_def split: sum.splits)
  show ?case
  proof (cases "R < H \<and> x + int (Suc n) \<le> W")
    case True
    then have c: "n = 0 \<or> (R < H \<and> x + int n \<le> W)" by auto
    with Suc obtain m1 where m1: "foldE ?F (py_range 0 (int n)) m = Inr m1" "grid_dims m1 W H"
      and e1: "\<forall>p. in_box W H p \<longrightarrow> cell_at m1 p
                      = (if snd p = R \<and> x \<le> fst p \<and> fst p < x + int n then \<phi> (cell_at m p)
                         else cell_at m p)"
      by auto
    have nn: "0 \<le> x + int n" using x by simp
    have inr: "R < H \<and> x + int n < W" using True by auto
    have "if R < H \<and> x + int n < W
          then \<exists>m'. f m1 R (x + int n) = Inr m' \<and> grid_dims m' W H
                 \<and> (\<forall>p. in_box W H p \<longrightarrow>
                       cell_at m' p = (if p = (x + int n, R) then \<phi> (cell_at m1 p) else cell_at m1 p))
          else f m1 R (x + int n) = Inl IndexError"
      using op m1(2) R nn unfolding cell_op_def by blast
    with inr obtain m2 where m2: "f m1 R (x + int n) = Inr m2" "grid_dims m2 W H"
      and e2: "\<forall>p. in_box W H p \<longrightarrow> cell_at m2 p
                 = (if p = (x + int n, R) then \<phi> (cell_at m1 p) else cell_at m1 p)"
      by auto
    have "\<forall>p. in_box W H p \<longrightarrow> cell_at m2 p
                      = (if snd p = R \<and> x \<le> fst p \<and> fst p < x + int (Suc n) then \<phi> (cell_at m p)
                         else cell_at m p)"
    proof (intro allI impI)
      fix p :: point assume pb: "in_box W H p"
      obtain px py where p: "p = (px, py)" by (cases p) auto
      show "cell_at m2 p = (if snd p = R \<and> x \<le> fst p \<and> fst p < x + int (Suc n) then \<phi> (cell_at m p)
                         else cell_at m p)"
        using e1[rule_format, OF pb] e2[rule_format, OF pb] by (auto simp: p)
    qed
    with m1 m2 True show ?thesis unfolding app by auto
  next
    case False
    show ?thesis
    proof (cases "n = 0 \<or> (R < H \<and> x + int n \<le> W)")
      case c: True
      with Suc obtain m1 where m1: "foldE ?F (py_range 0 (int n)) m = Inr m1" "grid_dims m1 W H"
        by auto
      have ninr: "\<not> (R < H \<and> x + int n < W)" using False by auto
      have nn: "0 \<le> x + int n" using x by simp
      have "if R < H \<and> x + int n < W
          then \<exists>m'. f m1 R (x + int n) = Inr m' \<and> grid_dims m' W H
                 \<and> (\<forall>p. in_box W H p \<longrightarrow>
                       cell_at m' p = (if p = (x + int n, R) then \<phi> (cell_at m1 p) else cell_at m1 p))
          else f m1 R (x + int n) = Inl IndexError"
        using op m1(2) R nn unfolding cell_op_def by blast
      with ninr have "f m1 R (x + int n) = Inl IndexError" by simp
      with m1 False show ?thesis unfolding app by auto
    next
      case c: False
      with Suc obtain e where "foldE ?F (py_range 0 (int n)) m = Inl e" by auto
      with False show ?thesis unfolding app by auto
    qed
  qed
qed

lemma rect_cells_Suc_row:
  "p \<in> rect_cells (x, y, w, int (Suc k)) \<longleftrightarrow>
     p \<in> rect_cells (x, y, w, int k) \<or> (snd p = y + int k \<and> x \<le> fst p \<and> fst p < x + w)"
  by (cases p) (auto simp: rect_cells_def)

lemma rect_cells_row_fresh:
  "snd p = y + int k \<Longrightarrow> p \<notin> rect_cells (x, y, w, int k)"
  by (cases p) (auto simp: rect_cells_def)

lemma rect_cells_nat: "rect_cells (x, y, int (nat w), int (nat h)) = rect_cells (x, y, w, h)"
  by (auto simp: rect_cells_def)

lemma rect_loop:
  assumes op: "cell_op W H \<phi> f" and d: "grid_dims m W H" and x: "0 \<le> x" and y: "0 \<le> y"
  shows "if k = 0 \<or> n = 0 \<or> (x + int n \<le> W \<and> y + int k \<le> H)
         then \<exists>m'. foldE (\<lambda>hu. foldE (\<lambda>wu m'. f m' (y + hu) (x + wu)) (py_range 0 (int n)))
                      (py_range 0 (int k)) m = Inr m'
                \<and> grid_dims m' W H
                \<and> (\<forall>p. in_box W H p \<longrightarrow> cell_at m' p
                      = (if p \<in> rect_cells (x, y, int n, int k) then \<phi> (cell_at m p)
                         else cell_at m p))
         else \<exists>e. foldE (\<lambda>hu. foldE (\<lambda>wu m'. f m' (y + hu) (x + wu)) (py_range 0 (int n)))
                      (py_range 0 (int k)) m = Inl e"
proof (induction k)
  case 0
  show ?case using d by (simp add: py_range_empty rect_cells_def)
next
  case (Suc k)
  let ?G = "\<lambda>hu. foldE (\<lambda>wu m'. f m' (y + hu) (x + wu)) (py_range 0 (int n))"
  have app: "foldE ?G (py_range 0 (int (Suc k))) m = bindE (foldE ?G (py_range 0 (int k)) m) (?G (int k))"
    unfolding py_range_0_Suc foldE_append by (simp add: bindE_def split: sum.splits)
  have yk: "0 \<le> y + int k" using y by simp
  show ?case
  proof (cases "n = 0 \<or> (x + int n \<le> W \<and> y + int (Suc k) \<le> H)")
    case True
    then have c: "k = 0 \<or> n = 0 \<or> (x + int n \<le> W \<and> y + int k \<le> H)" by auto
    with Suc obtain m1 where m1: "foldE ?G (py_range 0 (int k)) m = Inr m1" "grid_dims m1 W H"
      and e1: "\<forall>p. in_box W H p \<longrightarrow> cell_at m1 p
                      = (if p \<in> rect_cells (x, y, int n, int k) then \<phi> (cell_at m p)
                         else cell_at m p)"
      by auto
    have rc: "n = 0 \<or> (y + int k < H \<and> x + int n \<le> W)" using True by auto
    from row_loop[OF op m1(2) yk x, of n] rc
    obtain m2 where m2: "?G (int k) m1 = Inr m2" "grid_dims m2 W H"
      and e2: "\<forall>p. in_box W H p \<longrightarrow> cell_at m2 p
                      = (if snd p = y + int k \<and> x \<le> fst p \<and> fst p < x + int n then \<phi> (cell_at m1 p)
                         else cell_at m1 p)"
      by auto
    have "\<forall>p. in_box W H p \<longrightarrow> cell_at m2 p
                      = (if p \<in> rect_cells (x, y, int n, int (Suc k)) then \<phi> (cell_at m p)
                         else cell_at m p)"
    proof (intro allI impI)
      fix p :: point assume pb: "in_box W H p"
      show "cell_at m2 p = (if p \<in> rect_cells (x, y, int n, int (Suc k)) then \<phi> (cell_at m p)
                         else cell_at m p)"
      proof (cases "snd p = y + int k \<and> x \<le> fst p \<and> fst p < x + int n")
        case r: True
        then have "p \<notin> rect_cells (x, y, int n, int k)" by (simp add: rect_cells_row_fresh)
        then have "cell_at m1 p = cell_at m p" using e1[rule_format, OF pb] by simp
        moreover have "cell_at m2 p = \<phi> (cell_at m1 p)" using e2[rule_format, OF pb] r by simp
        moreover have "p \<in> rect_cells (x, y, int n, int (Suc k))"
          using r rect_cells_Suc_row[of p x y "int n" k] by blast
        ultimately show ?thesis by simp
      next
        case r: False
        have "cell_at m2 p = cell_at m1 p" using e2[rule_format, OF pb] by (simp only: r if_False)
        moreover have "p \<in> rect_cells (x, y, int n, int (Suc k)) \<longleftrightarrow> p \<in> rect_cells (x, y, int n, int k)"
          using r rect_cells_Suc_row[of p x y "int n" k] by blast
        ultimately show ?thesis using e1[rule_format, OF pb] by simp
      qed
    qed
    with m1 m2 True show ?thesis unfolding app by auto
  next
    case False
    show ?thesis
    proof (cases "k = 0 \<or> n = 0 \<or> (x + int n \<le> W \<and> y + int k \<le> H)")
      case c: True
      with Suc obtain m1 where m1: "foldE ?G (py_range 0 (int k)) m = Inr m1" "grid_dims m1 W H"
        by auto
      have rc: "\<not> (n = 0 \<or> (y + int k < H \<and> x + int n \<le> W))" using False by auto
      from row_loop[OF op m1(2) yk x, of n] rc
      obtain e where "?G (int k) m1 = Inl e" by auto
      with m1 False show ?thesis unfolding app by auto
    next
      case c: False
      with Suc obtain e where "foldE ?G (py_range 0 (int k)) m = Inl e" by auto
      with False show ?thesis unfolding app by auto
    qed
  qed
qed

lemma rect_write:
  assumes op: "cell_op W H \<phi> f" and d: "grid_dims m W H" and x: "0 \<le> x" and y: "0 \<le> y"
  shows "if h \<le> 0 \<or> w \<le> 0 \<or> (x + w \<le> W \<and> y + h \<le> H)
         then \<exists>m'. foldE (\<lambda>hu. foldE (\<lambda>wu m'. f m' (y + hu) (x + wu)) (py_range 0 w))
                      (py_range 0 h) m = Inr m'
                \<and> grid_dims m' W H
                \<and> (\<forall>p. in_box W H p \<longrightarrow> cell_at m' p
                      = (if p \<in> rect_cells (x, y, w, h) then \<phi> (cell_at m p) else cell_at m p))
         else \<exists>e. foldE (\<lambda>hu. foldE (\<lambda>wu m'. f m' (y + hu) (x + wu)) (py_range 0 w))
                      (py_range 0 h) m = Inl e"
proof -
  have c: "(nat h = 0 \<or> nat w = 0 \<or> (x + int (nat w) \<le> W \<and> y + int (nat h) \<le> H))
           \<longleftrightarrow> (h \<le> 0 \<or> w \<le> 0 \<or> (x + w \<le> W \<and> y + h \<le> H))"
    by auto
  have r: "py_range 0 w = py_range 0 (int (nat w))" "py_range 0 h = py_range 0 (int (nat h))"
    by (rule py_range_0_nat)+
  show ?thesis
    using rect_loop[OF op d x y, of "nat h" "nat w"]
    unfolding c rect_cells_nat r[symmetric] .
qed

subsection \<open>The blank map\<close>

lemma blank_map_dims: "grid_dims (blank_map w h) (int (nat w)) (int (nat h))"
  by (simp add: blank_map_def grid_dims_def list_all_iff)

lemma blank_map_cell:
  assumes "in_box (int (nat w)) (int (nat h)) p"
  shows "cell_at (blank_map w h) p = 0"
proof -
  have "nat (snd p) < length (py_range 0 h)" "nat (fst p) < length (py_range 0 w)"
    using assms by (auto simp: in_box_def split: if_splits)
  then show ?thesis by (simp add: blank_map_def cell_at_def)
qed

lemma blank_map_entries01: "entries01 (blank_map w h)"
  by (simp add: blank_map_def entries01_def list_all_iff)

subsection \<open>Entries that are 0 or 1\<close>

lemma entries01_cells:
  assumes "grid_dims m W H" "\<And>p. in_box W H p \<Longrightarrow> cell_at m p = 0 \<or> cell_at m p = 1"
  shows "entries01 m"
  unfolding entries01_def list_all_length
proof (intro allI impI)
  fix i j assume i: "i < length m" and j: "j < length (m ! i)"
  have "int (length (m ! i)) = W" using assms(1) i by (auto simp: grid_dims_def list_all_length)
  moreover have "int (length m) = H" using assms(1) by (simp add: grid_dims_def)
  ultimately have "in_box W H (int j, int i)" using i j by (auto simp: in_box_def)
  from assms(2)[OF this] show "m ! i ! j = 0 \<or> m ! i ! j = 1" by (simp add: cell_at_def)
qed

lemma entries01_update:
  assumes "entries01 m" "i < length m" "v = 0 \<or> v = 1"
  shows "entries01 (m[i := (m ! i)[j := v]])"
  unfolding entries01_def list_all_length
proof (intro allI impI)
  fix a b assume a: "a < length (m[i := (m ! i)[j := v]])"
    and b: "b < length (m[i := (m ! i)[j := v]] ! a)"
  have old: "\<And>a b. a < length m \<Longrightarrow> b < length (m ! a) \<Longrightarrow> m ! a ! b = 0 \<or> m ! a ! b = 1"
    using assms(1) by (simp add: entries01_def list_all_length)
  show "m[i := (m ! i)[j := v]] ! a ! b = 0 \<or> m[i := (m ! i)[j := v]] ! a ! b = 1"
  proof (cases "a = i")
    case True
    then have r: "m[i := (m ! i)[j := v]] ! a = (m ! i)[j := v]" using assms(2) by simp
    show ?thesis
    proof (cases "b = j")
      case True
      then show ?thesis using r b assms(3) by simp
    next
      case False
      then show ?thesis using r b old[of i b] assms(2) by simp
    qed
  next
    case False
    then show ?thesis using a b old[of a b] by simp
  qed
qed

lemma grid_incr_if_zero_entries01:
  assumes "grid_incr_if_zero m r c = Inr m'" "entries01 m"
  shows "entries01 m'"
proof -
  from assms(1) obtain v where g: "grid_get m r c = Inr v"
    and rest: "(if v = 0 then grid_incr m r c else Inr m) = Inr m'"
    by (auto simp: grid_incr_if_zero_def bindE_eq_Inr)
  show ?thesis
  proof (cases "v = 0")
    case False
    with rest assms(2) show ?thesis by simp
  next
    case True
    with rest g have "grid_set m r c 1 = Inr m'" by (simp add: grid_incr_def)
    then obtain i j where i: "py_index m r = Inr i" and m': "m' = m[i := (m ! i)[j := 1]]"
      by (auto simp: grid_set_def bindE_eq_Inr)
    from i have "i < length m" by (auto simp: py_index_def Let_def split: if_splits)
    then show ?thesis unfolding m' using assms(2) by (intro entries01_update) auto
  qed
qed

lemma write_corridor_entries01:
  assumes "mk2_write_corridor r m = Inr m'" "entries01 m"
  shows "entries01 m'"
proof -
  obtain x y w h where r: "r = (x, y, w, h)" by (cases r) auto
  have row: "entries01 b" if "foldE (\<lambda>wu m'. grid_incr_if_zero m' (y + hu) (x + wu)) (py_range 0 w) a = Inr b"
    "entries01 a" for hu a b
  proof (rule foldE_invariant[where P = entries01, OF that(1,2)])
    fix wu a' b'
    assume "entries01 a'" "grid_incr_if_zero a' (y + hu) (x + wu) = Inr b'"
    then show "entries01 b'" using grid_incr_if_zero_entries01 by blast
  qed
  have f: "foldE (\<lambda>hu. foldE (\<lambda>wu m'. grid_incr_if_zero m' (y + hu) (x + wu)) (py_range 0 w))
             (py_range 0 h) m = Inr m'"
    using assms(1) by (simp add: mk2_write_corridor_def r)
  show ?thesis
  proof (rule foldE_invariant[where P = entries01, OF f assms(2)])
    fix hu a b
    assume "entries01 a"
      "foldE (\<lambda>wu m'. grid_incr_if_zero m' (y + hu) (x + wu)) (py_range 0 w) a = Inr b"
    then show "entries01 b" using row by blast
  qed
qed

lemma write_corridors_entries01:
  assumes "foldE mk2_write_corridor cs m = Inr m'" "entries01 m"
  shows "entries01 m'"
proof (rule foldE_invariant[where P = entries01, OF assms])
  fix c a b
  assume "entries01 a" "mk2_write_corridor c a = Inr b"
  then show "entries01 b" using write_corridor_entries01 by blast
qed

lemma mk2_write_room_effect:
  assumes d: "grid_dims m W H" and x: "0 \<le> x" and y: "0 \<le> y"
    and w: "mk2_write_room (x, y, w, h) m = Inr m'"
  shows "grid_dims m' W H"
    "\<And>p. in_box W H p \<Longrightarrow>
       cell_at m' p = (if p \<in> rect_cells (x, y, w, h) then cell_at m p + 1 else cell_at m p)"
proof -
  have f: "foldE (\<lambda>hu. foldE (\<lambda>wu m'. grid_incr m' (y + hu) (x + wu)) (py_range 0 w))
             (py_range 0 h) m = Inr m'"
    using w by (simp add: mk2_write_room_def)
  from rect_write[OF cell_op_incr d x y, of h w] f
  have "grid_dims m' W H \<and> (\<forall>p. in_box W H p \<longrightarrow>
       cell_at m' p = (if p \<in> rect_cells (x, y, w, h) then cell_at m p + 1 else cell_at m p))"
    by (auto split: if_splits)
  then show "grid_dims m' W H"
    "\<And>p. in_box W H p \<Longrightarrow>
       cell_at m' p = (if p \<in> rect_cells (x, y, w, h) then cell_at m p + 1 else cell_at m p)"
    by blast+
qed

lemma write_rooms_exact:
  assumes d: "grid_dims m0 W H" and z: "\<And>p. in_box W H p \<Longrightarrow> cell_at m0 p = 0"
  shows "\<forall>r\<in>set rs. 0 \<le> fst r \<and> 0 \<le> fst (snd r) \<Longrightarrow>
     sorted_wrt (\<lambda>old new. \<not> mk2_check_these_two_rectangles_for_intersection new old) rs \<Longrightarrow>
     foldE mk2_write_room rs m0 = Inr m' \<Longrightarrow>
     grid_dims m' W H
     \<and> (\<forall>p. in_box W H p \<longrightarrow> cell_at m' p = (if \<exists>r\<in>set rs. p \<in> rect_cells r then 1 else 0))"
proof (induction rs arbitrary: m' rule: rev_induct)
  case Nil
  then show ?case using d z by simp
next
  case (snoc r rs)
  from snoc.prems(3) obtain m1 where m1: "foldE mk2_write_room rs m0 = Inr m1"
    and wr: "mk2_write_room r m1 = Inr m'"
    by (auto simp: foldE_snoc_Inr)
  have pos: "\<forall>r\<in>set rs. 0 \<le> fst r \<and> 0 \<le> fst (snd r)" using snoc.prems(1) by simp
  have srt: "sorted_wrt (\<lambda>old new. \<not> mk2_check_these_two_rectangles_for_intersection new old) rs"
    and fresh: "\<forall>old\<in>set rs. \<not> mk2_check_these_two_rectangles_for_intersection r old"
    using snoc.prems(2) by (simp_all add: sorted_wrt_append)
  from snoc.IH[OF pos srt m1] have d1: "grid_dims m1 W H"
    and c1: "\<And>p. in_box W H p \<Longrightarrow> cell_at m1 p = (if \<exists>r\<in>set rs. p \<in> rect_cells r then 1 else 0)"
    by blast+
  obtain x y w h where r: "r = (x, y, w, h)" by (cases r) auto
  have xy: "0 \<le> x" "0 \<le> y" using snoc.prems(1) by (simp_all add: r)
  note eff = mk2_write_room_effect[OF d1 xy wr[unfolded r]]
  have "cell_at m' p = (if \<exists>r\<in>set (rs @ [r]). p \<in> rect_cells r then 1 else 0)"
    if pb: "in_box W H p" for p
  proof (cases "p \<in> rect_cells r")
    case True
    have "\<not> (\<exists>old\<in>set rs. p \<in> rect_cells old)"
      using fresh True mk2_check_complete by blast
    then have "cell_at m1 p = 0" using c1[OF pb] by simp
    then show ?thesis using eff(2)[OF pb] True by (simp add: r)
  next
    case False
    then have "cell_at m' p = cell_at m1 p" using eff(2)[OF pb] by (simp add: r)
    then show ?thesis using c1[OF pb] False by simp
  qed
  then show ?case using eff(1) by blast
qed

lemma mk2_rooms_placed_pos:
  assumes "mk2_rooms_placed self rooms"
  shows "\<forall>r\<in>set rooms. 0 \<le> fst r \<and> 0 \<le> fst (snd r)"
  using assms by (auto simp: mk2_rooms_placed_def list_all_iff room_fits_def)

lemma mk2_rasterize_entries01:
  assumes "mk2_rooms_placed self rooms" "mk2_rasterize self rooms corridors = Inr m"
  shows "entries01 m"
proof -
  from assms(2) obtain m1 where
    m1: "foldE mk2_write_room rooms (blank_map (map_width self) (map_height self)) = Inr m1"
    and m: "foldE mk2_write_corridor corridors m1 = Inr m"
    by (auto simp: mk2_rasterize_def bindE_eq_Inr)
  have srt: "sorted_wrt (\<lambda>old new. \<not> mk2_check_these_two_rectangles_for_intersection new old) rooms"
    using assms(1) by (simp add: mk2_rooms_placed_def)
  define W where "W = int (nat (map_width self))"
  define H where "H = int (nat (map_height self))"
  have d0: "grid_dims (blank_map (map_width self) (map_height self)) W H"
    unfolding W_def H_def by (rule blank_map_dims)
  have z0: "\<And>p. in_box W H p \<Longrightarrow> cell_at (blank_map (map_width self) (map_height self)) p = 0"
    unfolding W_def H_def by (rule blank_map_cell)
  have A: "grid_dims m1 W H
     \<and> (\<forall>p. in_box W H p \<longrightarrow> cell_at m1 p = (if \<exists>r\<in>set rooms. p \<in> rect_cells r then 1 else 0))"
    by (rule write_rooms_exact[OF d0 z0 mk2_rooms_placed_pos[OF assms(1)] srt m1])
  have "entries01 m1"
  proof (rule entries01_cells)
    show "grid_dims m1 W H" using A by blast
    fix p assume "in_box W H p"
    then have "cell_at m1 p = (if \<exists>r\<in>set rooms. p \<in> rect_cells r then 1 else 0)"
      using A by blast
    then show "cell_at m1 p = 0 \<or> cell_at m1 p = 1" by (cases "\<exists>r\<in>set rooms. p \<in> rect_cells r") simp_all
  qed
  with m show ?thesis by (rule write_corridors_entries01)
qed

subsection \<open>Searches for the nearest centerpoint\<close>

lemma mk2_closest_centerpoint_fold:
  assumes "(s = None) = (c = None)"
    and "fold (\<lambda>each_centerpoint (shortest, closest).
                  if fst alpha = fst each_centerpoint \<and> snd alpha = snd each_centerpoint
                  then (shortest, closest)
                  else (let hyp = hypotenuse_squared alpha each_centerpoint
                        in if (case shortest of None \<Rightarrow> True | Some s \<Rightarrow> hyp < s)
                           then (Some hyp, Some each_centerpoint)
                           else (shortest, closest)))
               cps (s, c) = (s', c')"
  shows "((s' = None) = (c' = None))
       \<and> ((c' = None) = (c = None \<and> (\<forall>p\<in>set cps. p = alpha)))
       \<and> (\<forall>b. c' = Some b \<longrightarrow> c = Some b \<or> (b \<in> set cps \<and> b \<noteq> alpha))"
  using assms
proof (induction cps arbitrary: s c)
  case Nil
  then show ?case by auto
next
  case (Cons p cps)
  show ?case
  proof (cases "fst alpha = fst p \<and> snd alpha = snd p")
    case True
    then have pa: "p = alpha" by (simp add: prod_eq_iff)
    from Cons.prems(2) True have f: "fold (\<lambda>each_centerpoint (shortest, closest).
                  if fst alpha = fst each_centerpoint \<and> snd alpha = snd each_centerpoint
                  then (shortest, closest)
                  else (let hyp = hypotenuse_squared alpha each_centerpoint
                        in if (case shortest of None \<Rightarrow> True | Some s \<Rightarrow> hyp < s)
                           then (Some hyp, Some each_centerpoint)
                           else (shortest, closest)))
               cps (s, c) = (s', c')" by simp
    from Cons.IH[OF Cons.prems(1) f] pa show ?thesis by auto
  next
    case False
    then have pa: "p \<noteq> alpha" by (auto simp: prod_eq_iff)
    define upd where "upd = (case s of None \<Rightarrow> True | Some s0 \<Rightarrow> hypotenuse_squared alpha p < s0)"
    show ?thesis
    proof (cases upd)
      case True
      from Cons.prems(2) False True have f: "fold (\<lambda>each_centerpoint (shortest, closest).
                  if fst alpha = fst each_centerpoint \<and> snd alpha = snd each_centerpoint
                  then (shortest, closest)
                  else (let hyp = hypotenuse_squared alpha each_centerpoint
                        in if (case shortest of None \<Rightarrow> True | Some s \<Rightarrow> hyp < s)
                           then (Some hyp, Some each_centerpoint)
                           else (shortest, closest)))
               cps (Some (hypotenuse_squared alpha p), Some p) = (s', c')"
        by (simp add: upd_def Let_def)
      have "(Some (hypotenuse_squared alpha p) = None) = (Some p = None)" by simp
      from Cons.IH[OF this f] pa show ?thesis by auto
    next
      case nu: False
      then have sn: "s \<noteq> None" by (auto simp: upd_def split: option.splits)
      then have cn: "c \<noteq> None" using Cons.prems(1) by simp
      from Cons.prems(2) False nu have f: "fold (\<lambda>each_centerpoint (shortest, closest).
                  if fst alpha = fst each_centerpoint \<and> snd alpha = snd each_centerpoint
                  then (shortest, closest)
                  else (let hyp = hypotenuse_squared alpha each_centerpoint
                        in if (case shortest of None \<Rightarrow> True | Some s \<Rightarrow> hyp < s)
                           then (Some hyp, Some each_centerpoint)
                           else (shortest, closest)))
               cps (s, c) = (s', c')"
        by (simp add: upd_def Let_def)
      from Cons.IH[OF Cons.prems(1) f] cn show ?thesis by auto
    qed
  qed
qed

lemma mk2_closest_centerpoint_Some:
  assumes "mk2_closest_centerpoint alpha cps = Some b"
  shows "b \<in> set cps" "b \<noteq> alpha"
proof -
  obtain s' c' where f: "fold (\<lambda>each_centerpoint (shortest, closest).
                  if fst alpha = fst each_centerpoint \<and> snd alpha = snd each_centerpoint
                  then (shortest, closest)
                  else (let hyp = hypotenuse_squared alpha each_centerpoint
                        in if (case shortest of None \<Rightarrow> True | Some s \<Rightarrow> hyp < s)
                           then (Some hyp, Some each_centerpoint)
                           else (shortest, closest)))
               cps (None, None) = (s', c')" by (meson surj_pair)
  then have "c' = Some b" using assms by (simp add: mk2_closest_centerpoint_def)
  with mk2_closest_centerpoint_fold[OF _ f] show "b \<in> set cps" "b \<noteq> alpha" by auto
qed

lemma mk2_closest_centerpoint_None:
  "mk2_closest_centerpoint alpha cps = None \<longleftrightarrow> (\<forall>p\<in>set cps. p = alpha)"
proof -
  obtain s' c' where f: "fold (\<lambda>each_centerpoint (shortest, closest).
                  if fst alpha = fst each_centerpoint \<and> snd alpha = snd each_centerpoint
                  then (shortest, closest)
                  else (let hyp = hypotenuse_squared alpha each_centerpoint
                        in if (case shortest of None \<Rightarrow> True | Some s \<Rightarrow> hyp < s)
                           then (Some hyp, Some each_centerpoint)
                           else (shortest, closest)))
               cps (None, None) = (s', c')" by (meson surj_pair)
  then have "mk2_closest_centerpoint alpha cps = c'" by (simp add: mk2_closest_centerpoint_def)
  with mk2_closest_centerpoint_fold[OF _ f] show ?thesis by auto
qed

lemma mk2_closest_member_fold:
  assumes "(s = None) = (c = None)"
    and "fold (\<lambda>each_centerpoint (shortest, closest).
                  let hyp = hypotenuse_squared each_centerpoint target
                  in if (case shortest of None \<Rightarrow> True | Some s \<Rightarrow> hyp < s)
                     then (Some hyp, Some each_centerpoint)
                     else (shortest, closest))
               color (s, c) = (s', c')"
  shows "((s' = None) = (c' = None))
       \<and> ((c' = None) = (c = None \<and> color = []))
       \<and> (\<forall>b. c' = Some b \<longrightarrow> c = Some b \<or> b \<in> set color)"
  using assms
proof (induction color arbitrary: s c)
  case Nil
  then show ?case by auto
next
  case (Cons p color)
  define upd where "upd = (case s of None \<Rightarrow> True | Some s0 \<Rightarrow> hypotenuse_squared p target < s0)"
  show ?case
  proof (cases upd)
    case True
    from Cons.prems(2) True have f: "fold (\<lambda>each_centerpoint (shortest, closest).
                  let hyp = hypotenuse_squared each_centerpoint target
                  in if (case shortest of None \<Rightarrow> True | Some s \<Rightarrow> hyp < s)
                     then (Some hyp, Some each_centerpoint)
                     else (shortest, closest))
               color (Some (hypotenuse_squared p target), Some p) = (s', c')"
      by (simp add: upd_def Let_def)
    have "(Some (hypotenuse_squared p target) = None) = (Some p = None)" by simp
    from Cons.IH[OF this f] show ?thesis by auto
  next
    case nu: False
    then have sn: "s \<noteq> None" by (auto simp: upd_def split: option.splits)
    then have cn: "c \<noteq> None" using Cons.prems(1) by simp
    from Cons.prems(2) nu have f: "fold (\<lambda>each_centerpoint (shortest, closest).
                  let hyp = hypotenuse_squared each_centerpoint target
                  in if (case shortest of None \<Rightarrow> True | Some s \<Rightarrow> hyp < s)
                     then (Some hyp, Some each_centerpoint)
                     else (shortest, closest))
               color (s, c) = (s', c')"
      by (simp add: upd_def Let_def)
    from Cons.IH[OF Cons.prems(1) f] cn show ?thesis by auto
  qed
qed

lemma mk2_closest_member_Some:
  assumes "color \<noteq> []"
  shows "\<exists>b. mk2_closest_member target color = Some b \<and> b \<in> set color"
proof -
  obtain s' c' where f: "fold (\<lambda>each_centerpoint (shortest, closest).
                  let hyp = hypotenuse_squared each_centerpoint target
                  in if (case shortest of None \<Rightarrow> True | Some s \<Rightarrow> hyp < s)
                     then (Some hyp, Some each_centerpoint)
                     else (shortest, closest))
               color (None, None) = (s', c')" by (meson surj_pair)
  then have e: "mk2_closest_member target color = c'" by (simp add: mk2_closest_member_def)
  from mk2_closest_member_fold[OF _ f] assms have "c' \<noteq> None" "\<forall>b. c' = Some b \<longrightarrow> b \<in> set color"
    by auto
  then show ?thesis using e by auto
qed

subsection \<open>Colors\<close>

lemma mk2_color_flags_fold:
  "fold (\<lambda>each_centerpoint (conn, ca, cb, ch, cv).
             (conn \<or> each_centerpoint = a \<or> each_centerpoint = b \<or> each_centerpoint = h
                \<or> each_centerpoint = v,
              ca \<and> each_centerpoint \<noteq> a, cb \<and> each_centerpoint \<noteq> b,
              ch \<and> each_centerpoint \<noteq> h, cv \<and> each_centerpoint \<noteq> v))
          c (conn0, ca0, cb0, ch0, cv0)
   = (conn0 \<or> (\<exists>x\<in>set c. x = a \<or> x = b \<or> x = h \<or> x = v),
      ca0 \<and> a \<notin> set c, cb0 \<and> b \<notin> set c, ch0 \<and> h \<notin> set c, cv0 \<and> v \<notin> set c)"
  by (induction c arbitrary: conn0 ca0 cb0 ch0 cv0) auto

lemma mk2_color_flags_eq:
  "mk2_color_flags a b h v c
   = ((\<exists>x\<in>set c. x = a \<or> x = b \<or> x = h \<or> x = v),
      a \<notin> set c, b \<notin> set c, h \<notin> set c, v \<notin> set c)"
  unfolding mk2_color_flags_def mk2_color_flags_fold by simp

lemma mk2_extend_color_eq:
  "mk2_extend_color a b h v c =
     (if \<exists>x\<in>set c. x = a \<or> x = b \<or> x = h \<or> x = v
      then (c @ (if a \<notin> set c then [a] else []) @ (if b \<notin> set c then [b] else [])
              @ (if h \<notin> set c then [h] else []) @ (if v \<notin> set c then [v] else []), True)
      else (c, False))"
  by (simp add: mk2_extend_color_def mk2_color_flags_eq)

lemma mk2_extend_color_snd:
  "snd (mk2_extend_color a b h v c) \<longleftrightarrow> (\<exists>x\<in>set c. x = a \<or> x = b \<or> x = h \<or> x = v)"
  unfolding mk2_extend_color_eq by (cases "\<exists>x\<in>set c. x = a \<or> x = b \<or> x = h \<or> x = v") simp_all

lemma mk2_extend_color_no:
  assumes "\<not> snd (mk2_extend_color a b h v c)"
  shows "fst (mk2_extend_color a b h v c) = c"
proof -
  have n: "\<not> (\<exists>x\<in>set c. x = a \<or> x = b \<or> x = h \<or> x = v)"
    using assms by (simp only: mk2_extend_color_snd) simp
  show ?thesis unfolding mk2_extend_color_eq by (simp only: n if_False fst_conv)
qed

lemma mk2_extend_color_yes:
  assumes "snd (mk2_extend_color a b h v c)"
  shows "set (fst (mk2_extend_color a b h v c)) = set c \<union> {a, b, h, v}"
proof -
  have e: "\<exists>x\<in>set c. x = a \<or> x = b \<or> x = h \<or> x = v"
    using assms by (simp only: mk2_extend_color_snd)
  have "fst (mk2_extend_color a b h v c)
        = c @ (if a \<notin> set c then [a] else []) @ (if b \<notin> set c then [b] else [])
              @ (if h \<notin> set c then [h] else []) @ (if v \<notin> set c then [v] else [])"
    unfolding mk2_extend_color_eq by (simp only: e if_True fst_conv)
  then show ?thesis by auto
qed

lemma mk2_update_colors_members:
  assumes "c' \<in> set (mk2_update_colors a b h v cs)"
  shows "c' = [a, b, h, v]
       \<or> (\<exists>c\<in>set cs. c' = c
             \<or> ((\<exists>x\<in>set c. x = a \<or> x = b \<or> x = h \<or> x = v) \<and> set c' = set c \<union> {a, b, h, v}))"
proof (cases "cs = []")
  case True
  with assms show ?thesis by (simp add: mk2_update_colors_def)
next
  case False
  with assms have "c' = [a, b, h, v] \<or> c' \<in> fst ` mk2_extend_color a b h v ` set cs"
    by (auto simp: mk2_update_colors_def Let_def split: if_splits)
  then show ?thesis
  proof
    assume "c' = [a, b, h, v]" then show ?thesis by simp
  next
    assume "c' \<in> fst ` mk2_extend_color a b h v ` set cs"
    then obtain c where c: "c \<in> set cs" "c' = fst (mk2_extend_color a b h v c)" by auto
    show ?thesis
    proof (cases "snd (mk2_extend_color a b h v c)")
      case True
      then show ?thesis using c mk2_extend_color_yes[OF True] mk2_extend_color_snd[of a b h v c]
        by blast
    next
      case False
      then show ?thesis using c mk2_extend_color_no[OF False] by auto
    qed
  qed
qed

lemma mk2_update_colors_alpha:
  "\<exists>c'\<in>set (mk2_update_colors a b h v cs). a \<in> set c'"
proof (cases "cs = []")
  case True
  then show ?thesis by (simp add: mk2_update_colors_def)
next
  case False
  show ?thesis
  proof (cases "list_ex snd (map (mk2_extend_color a b h v) cs)")
    case True
    then obtain c where c: "c \<in> set cs" "snd (mk2_extend_color a b h v c)"
      by (auto simp: list_ex_iff)
    have "fst (mk2_extend_color a b h v c) \<in> set (mk2_update_colors a b h v cs)"
      using False True c(1) by (auto simp: mk2_update_colors_def Let_def)
    moreover have "a \<in> set (fst (mk2_extend_color a b h v c))"
      using mk2_extend_color_yes[OF c(2)] by simp
    ultimately show ?thesis by blast
  next
    case nf: False
    then have "[a, b, h, v] \<in> set (mk2_update_colors a b h v cs)"
      using False by (auto simp: mk2_update_colors_def Let_def)
    then show ?thesis by force
  qed
qed

lemma mk2_update_colors_keeps:
  assumes "c \<in> set cs"
  shows "\<exists>c'\<in>set (mk2_update_colors a b h v cs). set c \<subseteq> set c'"
proof -
  have ne: "cs \<noteq> []" using assms by auto
  have m: "fst (mk2_extend_color a b h v c) \<in> set (mk2_update_colors a b h v cs)"
    using ne assms by (auto simp: mk2_update_colors_def Let_def)
  have "set c \<subseteq> set (fst (mk2_extend_color a b h v c))"
    by (cases "snd (mk2_extend_color a b h v c)")
       (auto simp: mk2_extend_color_yes mk2_extend_color_no)
  with m show ?thesis by blast
qed

lemma mk2_update_colors_nonempty: "mk2_update_colors a b h v cs \<noteq> []"
  by (auto simp: mk2_update_colors_def Let_def)

lemma color_ok_mono: "color_ok S c \<Longrightarrow> S \<subseteq> T \<Longrightarrow> color_ok T c"
  unfolding color_ok_def by (meson connected_in_mono subset_trans)

lemma color_ok_new:
  assumes "connected_set U" "a \<in> U" "b \<in> U" "h \<in> U" "v \<in> U" "U \<subseteq> T"
  shows "color_ok T [a, b, h, v]"
proof -
  have "\<forall>p\<in>{a, b, h, v}. \<forall>q\<in>{a, b, h, v}. connected_in U p q"
    using assms(1-5) unfolding connected_set_def by blast
  then have "\<forall>p\<in>{a, b, h, v}. \<forall>q\<in>{a, b, h, v}. connected_in T p q"
    using assms(6) connected_in_mono by blast
  then show ?thesis using assms(2-6) by (auto simp: color_ok_def)
qed

lemma color_ok_extend:
  assumes ok: "color_ok S c" and U: "connected_set U" "a \<in> U" "b \<in> U" "h \<in> U" "v \<in> U"
    and sub: "S \<subseteq> T" "U \<subseteq> T"
    and x: "x \<in> set c" "x = a \<or> x = b \<or> x = h \<or> x = v"
    and c': "set c' = set c \<union> {a, b, h, v}"
  shows "color_ok T c'"
proof -
  have xU: "x \<in> U" using x(2) U by auto
  have toX: "connected_in T p x" if "p \<in> set c'" for p
  proof (cases "p \<in> set c")
    case True
    then have "connected_in S p x" using ok x(1) by (simp add: color_ok_def)
    then show ?thesis using sub(1) by (rule connected_in_mono)
  next
    case False
    then have "p \<in> U" using that c' U by auto
    then have "connected_in U p x" using U(1) xU by (simp add: connected_set_def)
    then show ?thesis using sub(2) by (rule connected_in_mono)
  qed
  have "connected_in T p q" if "p \<in> set c'" "q \<in> set c'" for p q
    by (rule connected_in_trans[OF connected_in_sym[OF toX[OF that(2)]] toX[OF that(1)]])
  moreover have "set c' \<subseteq> T" using c' ok U sub by (auto simp: color_ok_def)
  moreover have "c' \<noteq> []" using c' by auto
  ultimately show ?thesis by (simp add: color_ok_def)
qed

lemma cells_of_append: "cells_of (xs @ ys) = cells_of xs \<union> cells_of ys"
  by (auto simp: cells_of_def)

lemma cells_of_pair: "cells_of [h, v] = rect_cells h \<union> rect_cells v"
  by (auto simp: cells_of_def)

lemma mk2_l_corridor_in_box:
  assumes "mk2_l_corridor d a b = (hc, vc)" "in_box W H a" "in_box W H b"
  shows "rect_in_box W H hc" "rect_in_box W H vc"
  using assms
  by (auto simp: mk2_l_corridor_def mk2_define_corridor_def rect_in_box_def in_box_def Let_def
        split: if_splits)

subsection \<open>The first pass\<close>

lemma rect_in_box_cells: "rect_in_box W H r \<Longrightarrow> p \<in> rect_cells r \<Longrightarrow> in_box W H p"
  by (cases r; cases p) (auto simp: rect_in_box_def rect_cells_def in_box_def)

lemma cells_of_in_box:
  "\<forall>k\<in>set corridors. rect_in_box W H k \<Longrightarrow> p \<in> cells_of corridors \<Longrightarrow> in_box W H p"
  by (auto simp: cells_of_def intro: rect_in_box_cells)

lemma mk2_link_room_step:
  assumes inv: "link_inv W H cps colors corridors"
    and ab: "in_box W H (mk2_return_the_center_of_this_rectangle room)"
    and ex: "\<exists>p\<in>set cps. p \<noteq> mk2_return_the_center_of_this_rectangle room"
  shows "\<exists>cps' colors' corridors' g'.
           mk2_link_room room (cps, colors, corridors, g) = Inr (cps', colors', corridors', g')
         \<and> link_inv W H cps' colors' corridors'
         \<and> set cps \<subseteq> set cps'
         \<and> (\<exists>c\<in>set colors'. mk2_return_the_center_of_this_rectangle room \<in> set c)
         \<and> (\<forall>c\<in>set colors. \<exists>c'\<in>set colors'. set c \<subseteq> set c')
         \<and> colors' \<noteq> []"
proof -
  define alpha where "alpha = mk2_return_the_center_of_this_rectangle room"
  obtain d g' where d: "randint 0 1 g = Inr (d, g')" using randint_0_1 by blast
  have "mk2_closest_centerpoint alpha cps \<noteq> None"
    using ex by (auto simp: mk2_closest_centerpoint_None alpha_def)
  then obtain beta where beta: "mk2_closest_centerpoint alpha cps = Some beta" by auto
  have bcps: "beta \<in> set cps" by (rule mk2_closest_centerpoint_Some(1)[OF beta])
  have bb: "in_box W H beta" using inv bcps by (simp add: link_inv_def)
  have aa: "in_box W H alpha" using ab by (simp add: alpha_def)
  obtain hc vc where hv: "mk2_l_corridor d alpha beta = (hc, vc)" by (meson surj_pair)
  define U where "U = rect_cells hc \<union> rect_cells vc"
  define hcp where "hcp = mk2_return_the_center_of_this_rectangle hc"
  define vcp where "vcp = mk2_return_the_center_of_this_rectangle vc"
  note props = mk2_l_corridor_props[OF hv]
  have aU: "alpha \<in> U" and bU: "beta \<in> U" and hU: "hcp \<in> U" and vU: "vcp \<in> U"
    and cU: "connected_set U"
    using props(1-5) by (simp_all add: U_def hcp_def vcp_def)
  have boxU: "\<And>p. p \<in> U \<Longrightarrow> in_box W H p"
    using props(6)[OF aa bb] by (simp add: U_def)
  define colors' where "colors' = mk2_update_colors alpha beta hcp vcp colors"
  have res: "mk2_link_room room (cps, colors, corridors, g)
             = Inr (cps @ [hcp, vcp], colors', corridors @ [hc, vc], g')"
    using d beta hv
    by (simp add: mk2_link_room_def Let_def alpha_def[symmetric] hcp_def vcp_def colors'_def)
  define T where "T = cells_of (corridors @ [hc, vc])"
  have T: "T = cells_of corridors \<union> U" by (simp add: T_def cells_of_append cells_of_pair U_def)
  have ok': "color_ok T c'" if c': "c' \<in> set colors'" for c'
  proof -
    from mk2_update_colors_members[OF c'[unfolded colors'_def]]
    consider (new) "c' = [alpha, beta, hcp, vcp]"
      | (old) "c' \<in> set colors"
      | (ext) c x where "c \<in> set colors" "x \<in> set c" "x = alpha \<or> x = beta \<or> x = hcp \<or> x = vcp"
          "set c' = set c \<union> {alpha, beta, hcp, vcp}"
      by blast
    then show ?thesis
    proof cases
      case new
      show ?thesis unfolding new by (rule color_ok_new[OF cU aU bU hU vU]) (simp add: T)
    next
      case old
      then have "color_ok (cells_of corridors) c'" using inv by (simp add: link_inv_def)
      then show ?thesis by (rule color_ok_mono) (simp add: T)
    next
      case ext
      have "color_ok (cells_of corridors) c" using inv ext(1) by (simp add: link_inv_def)
      then show ?thesis
        by (rule color_ok_extend[OF _ cU aU bU hU vU _ _ ext(2,3,4)]) (simp_all add: T)
    qed
  qed
  have inv': "link_inv W H (cps @ [hcp, vcp]) colors' (corridors @ [hc, vc])"
    unfolding link_inv_def
  proof (intro conjI ballI)
    fix p assume "p \<in> set (cps @ [hcp, vcp])"
    then have "p \<in> set cps \<or> p = hcp \<or> p = vcp" by auto
    moreover have "\<forall>q\<in>set cps. in_box W H q" using inv by (simp add: link_inv_def)
    ultimately show "in_box W H p" using boxU[OF hU] boxU[OF vU] by blast
  next
    fix c assume "c \<in> set colors'"
    then show "color_ok (cells_of (corridors @ [hc, vc])) c" using ok' by (simp add: T_def)
  next
    fix k assume "k \<in> set (corridors @ [hc, vc])"
    then show "rect_in_box W H k"
      using inv mk2_l_corridor_in_box[OF hv aa bb] by (auto simp: link_inv_def)
  qed
  have a_in: "\<exists>c\<in>set colors'. alpha \<in> set c"
    unfolding colors'_def by (rule mk2_update_colors_alpha)
  have keeps: "\<forall>c\<in>set colors. \<exists>c'\<in>set colors'. set c \<subseteq> set c'"
    unfolding colors'_def using mk2_update_colors_keeps by blast
  have ne: "colors' \<noteq> []" unfolding colors'_def by (rule mk2_update_colors_nonempty)
  show ?thesis
    using res inv' a_in keeps ne unfolding alpha_def by (intro exI conjI) auto
qed

lemma mk2_first_pass_loop:
  assumes "link_inv W H cps colors corridors"
    and "\<forall>r\<in>set rs. in_box W H (mk2_return_the_center_of_this_rectangle r)
                  \<and> (\<exists>p\<in>set cps. p \<noteq> mk2_return_the_center_of_this_rectangle r)"
  shows "\<exists>cps' colors' corridors' g'.
           foldE mk2_link_room rs (cps, colors, corridors, g) = Inr (cps', colors', corridors', g')
         \<and> link_inv W H cps' colors' corridors'
         \<and> (\<forall>r\<in>set rs. \<exists>c\<in>set colors'. mk2_return_the_center_of_this_rectangle r \<in> set c)
         \<and> (\<forall>c\<in>set colors. \<exists>c'\<in>set colors'. set c \<subseteq> set c')
         \<and> (rs \<noteq> [] \<longrightarrow> colors' \<noteq> [])"
  using assms
proof (induction rs arbitrary: cps colors corridors g)
  case Nil
  then show ?case by auto
next
  case (Cons r rs)
  have ab: "in_box W H (mk2_return_the_center_of_this_rectangle r)"
    and ex: "\<exists>p\<in>set cps. p \<noteq> mk2_return_the_center_of_this_rectangle r"
    using Cons.prems(2) by auto
  from mk2_link_room_step[OF Cons.prems(1) ab ex, of g]
  obtain cps1 colors1 corridors1 g1 where
    s1: "mk2_link_room r (cps, colors, corridors, g) = Inr (cps1, colors1, corridors1, g1)"
    and inv1: "link_inv W H cps1 colors1 corridors1"
    and sub1: "set cps \<subseteq> set cps1"
    and in1: "\<exists>c\<in>set colors1. mk2_return_the_center_of_this_rectangle r \<in> set c"
    and keep1: "\<forall>c\<in>set colors. \<exists>c'\<in>set colors1. set c \<subseteq> set c'"
    and ne1: "colors1 \<noteq> []"
    by blast
  have rest: "\<forall>r\<in>set rs. in_box W H (mk2_return_the_center_of_this_rectangle r)
                  \<and> (\<exists>p\<in>set cps1. p \<noteq> mk2_return_the_center_of_this_rectangle r)"
  proof -
    from Cons.prems(2) have tl: "\<forall>r\<in>set rs. in_box W H (mk2_return_the_center_of_this_rectangle r)
                  \<and> (\<exists>p\<in>set cps. p \<noteq> mk2_return_the_center_of_this_rectangle r)"
      by simp
    with sub1 show ?thesis by blast
  qed
  from Cons.IH[OF inv1 rest, of g1]
  obtain cps2 colors2 corridors2 g2 where
    s2: "foldE mk2_link_room rs (cps1, colors1, corridors1, g1) = Inr (cps2, colors2, corridors2, g2)"
    and inv2: "link_inv W H cps2 colors2 corridors2"
    and in2: "\<forall>r\<in>set rs. \<exists>c\<in>set colors2. mk2_return_the_center_of_this_rectangle r \<in> set c"
    and keep2: "\<forall>c\<in>set colors1. \<exists>c'\<in>set colors2. set c \<subseteq> set c'"
    and ne2: "rs \<noteq> [] \<longrightarrow> colors2 \<noteq> []"
    by blast
  have f: "foldE mk2_link_room (r # rs) (cps, colors, corridors, g) = Inr (cps2, colors2, corridors2, g2)"
    using s1 s2 by simp
  have inr: "\<exists>c\<in>set colors2. mk2_return_the_center_of_this_rectangle r \<in> set c"
    using in1 keep2 by blast
  have keep: "\<forall>c\<in>set colors. \<exists>c'\<in>set colors2. set c \<subseteq> set c'"
    using keep1 keep2 by (meson subset_trans)
  have ne: "colors2 \<noteq> []" using ne1 keep2 by (cases colors1) auto
  show ?case using f inv2 inr in2 keep ne by (intro exI conjI) auto
qed

subsection \<open>Merging\<close>

lemma mk2_color_average_nonempty:
  "c \<noteq> [] \<Longrightarrow> \<exists>avg. mk2_color_average c = Inr avg"
  by (simp add: mk2_color_average_def Let_def)

lemma mk2_closest_color_fold:
  assumes "\<forall>i\<in>set xs. i < length colors \<and> colors ! i \<noteq> []"
  shows "\<exists>best'. foldE (\<lambda>each_beta_color_index best.
              bindE (mk2_color_average (colors ! each_beta_color_index)) (\<lambda>beta_average.
                let hyp = hypotenuse_squared alpha_average beta_average
                in Inr (if (case best of None \<Rightarrow> True | Some (s, _, _) \<Rightarrow> hyp < s)
                        then Some (hyp, each_beta_color_index, beta_average) else best)))
           xs best = Inr best'
        \<and> (best' = None \<longleftrightarrow> best = None \<and> xs = [])
        \<and> (\<forall>s k a. best' = Some (s, k, a) \<longrightarrow> best = Some (s, k, a) \<or> k \<in> set xs)"
  using assms
proof (induction xs arbitrary: best)
  case Nil
  then show ?case by auto
next
  case (Cons i xs)
  have "colors ! i \<noteq> []" using Cons.prems by simp
  then obtain avg where avg: "mk2_color_average (colors ! i) = Inr avg"
    using mk2_color_average_nonempty by blast
  define b1 where "b1 = (if (case best of None \<Rightarrow> True
                             | Some (s, _, _) \<Rightarrow> hypotenuse_squared alpha_average avg < s)
                         then Some (hypotenuse_squared alpha_average avg, i, avg) else best)"
  have tl: "\<forall>i\<in>set xs. i < length colors \<and> colors ! i \<noteq> []" using Cons.prems by simp
  from Cons.IH[OF tl, of b1] obtain best' where
    f: "foldE (\<lambda>each_beta_color_index best.
              bindE (mk2_color_average (colors ! each_beta_color_index)) (\<lambda>beta_average.
                let hyp = hypotenuse_squared alpha_average beta_average
                in Inr (if (case best of None \<Rightarrow> True | Some (s, _, _) \<Rightarrow> hyp < s)
                        then Some (hyp, each_beta_color_index, beta_average) else best)))
           xs b1 = Inr best'"
    and n: "best' = None \<longleftrightarrow> b1 = None \<and> xs = []"
    and s: "\<forall>s k a. best' = Some (s, k, a) \<longrightarrow> b1 = Some (s, k, a) \<or> k \<in> set xs"
    by blast
  have b1n: "b1 \<noteq> None" by (cases best) (auto simp: b1_def)
  have b1s: "\<forall>s k a. b1 = Some (s, k, a) \<longrightarrow> best = Some (s, k, a) \<or> k = i"
    by (auto simp: b1_def split: if_splits)
  have "foldE (\<lambda>each_beta_color_index best.
              bindE (mk2_color_average (colors ! each_beta_color_index)) (\<lambda>beta_average.
                let hyp = hypotenuse_squared alpha_average beta_average
                in Inr (if (case best of None \<Rightarrow> True | Some (s, _, _) \<Rightarrow> hyp < s)
                        then Some (hyp, each_beta_color_index, beta_average) else best)))
           (i # xs) best = Inr best'"
    using avg f by (simp add: Let_def b1_def)
  moreover have "best' \<noteq> None" using n b1n by simp
  moreover have "\<forall>s k a. best' = Some (s, k, a) \<longrightarrow> best = Some (s, k, a) \<or> k \<in> set (i # xs)"
    using s b1s by auto
  ultimately show ?case by auto
qed

lemma mk2_closest_color_Some:
  assumes "length colors > 1" "\<forall>c\<in>set colors. c \<noteq> []"
  shows "\<exists>s k a. mk2_closest_color alpha_average colors = Inr (Some (s, k, a))
           \<and> 1 \<le> k \<and> k < length colors"
proof -
  have "\<forall>i\<in>set [1..<length colors]. i < length colors \<and> colors ! i \<noteq> []"
    using assms(2) by auto
  from mk2_closest_color_fold[OF this, of alpha_average None]
  obtain best' where f: "mk2_closest_color alpha_average colors = Inr best'"
    and n: "best' = None \<longleftrightarrow> [1..<length colors] = []"
    and s: "\<forall>s k a. best' = Some (s, k, a) \<longrightarrow> k \<in> set [1..<length colors]"
    unfolding mk2_closest_color_def by auto
  have "1 \<in> set [1..<length colors]" using assms(1) by simp
  then have "[1..<length colors] \<noteq> []" by (metis empty_iff empty_set)
  then have "best' \<noteq> None" using n by blast
  then obtain s0 k a where b: "best' = Some (s0, k, a)" by (cases best') auto
  with s have "1 \<le> k \<and> k < length colors" by auto
  with f b show ?thesis by blast
qed

lemma color_ok_join:
  assumes "color_ok S c1" "color_ok S c2" "connected_set U"
    and "pa \<in> set c1" "pa \<in> U" "pb \<in> set c2" "pb \<in> U" "S \<subseteq> T" "U \<subseteq> T"
  shows "color_ok T (c1 @ c2)"
proof -
  have ab: "connected_in T pa pb"
    using assms(3,5,7,9) by (meson connected_in_mono connected_set_def)
  have toA: "connected_in T p pa" if "p \<in> set (c1 @ c2)" for p
  proof (cases "p \<in> set c1")
    case True
    then have "connected_in S p pa" using assms(1,4) by (simp add: color_ok_def)
    then show ?thesis using assms(8) by (rule connected_in_mono)
  next
    case False
    then have "p \<in> set c2" using that by simp
    then have "connected_in S p pb" using assms(2,6) by (simp add: color_ok_def)
    then have "connected_in T p pb" using assms(8) by (rule connected_in_mono)
    then show ?thesis by (rule connected_in_trans[OF connected_in_sym[OF ab]])
  qed
  have "connected_in T p q" if "p \<in> set (c1 @ c2)" "q \<in> set (c1 @ c2)" for p q
    by (rule connected_in_trans[OF connected_in_sym[OF toA[OF that(2)]] toA[OF that(1)]])
  moreover have "set (c1 @ c2) \<subseteq> T" using assms(1,2,8) by (auto simp: color_ok_def)
  moreover have "c1 @ c2 \<noteq> []" using assms(1) by (simp add: color_ok_def)
  ultimately show ?thesis by (simp add: color_ok_def)
qed

lemma delete_nth_mem:
  "i < length xs \<Longrightarrow> i \<noteq> k \<Longrightarrow> xs ! i \<in> set (take k xs @ drop (Suc k) xs)"
proof (cases "i < k")
  case True
  assume "i < length xs"
  then have "xs ! i \<in> set (take k xs)" using True by (auto simp: in_set_conv_nth intro!: exI[of _ i])
  then show ?thesis by simp
next
  case False
  assume a: "i < length xs" "i \<noteq> k"
  then have "Suc k \<le> i" using False by simp
  then have "xs ! i \<in> set (drop (Suc k) xs)"
    using a(1) by (metis Cons_nth_drop_Suc list.set_intros(1) set_drop_subset_set_drop subsetD)
  then show ?thesis by simp
qed

lemma delete_nth_set: "set (take k xs @ drop (Suc k) xs) \<subseteq> set xs"
  by (auto dest: in_set_takeD in_set_dropD)

lemma delete_nth_length: "k < length xs \<Longrightarrow> length (take k xs @ drop (Suc k) xs) = length xs - 1"
  by auto

lemma mk2_merge_step_ok:
  assumes inv: "link_inv W H cps colors corridors" and len: "length colors > 1"
  shows "\<exists>colors' corridors' g'.
           mk2_merge_step (colors, corridors, g) = Inr (colors', corridors', g')
         \<and> link_inv W H cps colors' corridors'
         \<and> length colors' = length colors - 1
         \<and> (\<forall>c\<in>set colors. \<exists>c'\<in>set colors'. set c \<subseteq> set c')"
proof -
  have oks: "\<And>c. c \<in> set colors \<Longrightarrow> color_ok (cells_of corridors) c"
    using inv by (simp add: link_inv_def)
  have boxes: "\<forall>k\<in>set corridors. rect_in_box W H k" using inv by (simp add: link_inv_def)
  have ne: "\<forall>c\<in>set colors. c \<noteq> []" using oks by (auto simp: color_ok_def)
  define color_alpha where "color_alpha = colors ! 0"
  have pos: "0 < length colors" using len by (cases colors) auto
  have a_in: "color_alpha \<in> set colors" using pos by (simp add: color_alpha_def)
  have a_ne: "color_alpha \<noteq> []" using ne a_in by blast
  obtain alpha_average where av: "mk2_color_average color_alpha = Inr alpha_average"
    using mk2_color_average_nonempty[OF a_ne] by blast
  obtain s k beta_average where
    cc: "mk2_closest_color alpha_average colors = Inr (Some (s, k, beta_average))"
    and k: "1 \<le> k" "k < length colors"
    using mk2_closest_color_Some[OF len ne] by blast
  define color_beta where "color_beta = colors ! k"
  have b_in: "color_beta \<in> set colors" using k by (simp add: color_beta_def)
  have b_ne: "color_beta \<noteq> []" using ne b_in by blast
  obtain pa where pa: "mk2_closest_member beta_average color_alpha = Some pa" "pa \<in> set color_alpha"
    using mk2_closest_member_Some[OF a_ne] by blast
  obtain pb where pb: "mk2_closest_member alpha_average color_beta = Some pb" "pb \<in> set color_beta"
    using mk2_closest_member_Some[OF b_ne] by blast
  obtain d g' where d: "randint 0 1 g = Inr (d, g')" using randint_0_1 by blast
  obtain hc vc where hv: "mk2_l_corridor d pa pb = (hc, vc)" by (meson surj_pair)
  define merged where "merged = colors[0 := color_alpha @ color_beta]"
  define colors' where "colors' = take k merged @ drop (Suc k) merged"
  have res: "mk2_merge_step (colors, corridors, g) = Inr (colors', corridors @ [hc, vc], g')"
    using len av cc pa(1) pb(1) d hv
    by (simp add: mk2_merge_step_def Let_def color_alpha_def[symmetric] color_beta_def[symmetric]
          merged_def[symmetric] colors'_def[symmetric])
  define U where "U = rect_cells hc \<union> rect_cells vc"
  define T where "T = cells_of (corridors @ [hc, vc])"
  have T: "T = cells_of corridors \<union> U" by (simp add: T_def cells_of_append cells_of_pair U_def)
  note props = mk2_l_corridor_props[OF hv]
  have paU: "pa \<in> U" and pbU: "pb \<in> U" and cU: "connected_set U"
    using props(1,2,5) by (simp_all add: U_def)
  have "set color_alpha \<subseteq> cells_of corridors" using oks[OF a_in] by (simp add: color_ok_def)
  then have "pa \<in> cells_of corridors" using pa(2) by blast
  then have pa_box: "in_box W H pa" by (rule cells_of_in_box[OF boxes])
  have "set color_beta \<subseteq> cells_of corridors" using oks[OF b_in] by (simp add: color_ok_def)
  then have "pb \<in> cells_of corridors" using pb(2) by blast
  then have pb_box: "in_box W H pb" by (rule cells_of_in_box[OF boxes])
  have joined: "color_ok T (color_alpha @ color_beta)"
    by (rule color_ok_join[OF oks[OF a_in] oks[OF b_in] cU pa(2) paU pb(2) pbU]) (simp_all add: T)
  have lm: "length merged = length colors" by (simp add: merged_def)
  have merged_mem: "c = color_alpha @ color_beta \<or> c \<in> set colors" if "c \<in> set merged" for c
    using that set_update_subset_insert[of colors 0 "color_alpha @ color_beta"]
    unfolding merged_def by blast
  have ok': "color_ok T c" if "c \<in> set colors'" for c
  proof -
    have "set colors' \<subseteq> set merged" unfolding colors'_def by (rule delete_nth_set)
    then have "c \<in> set merged" using that by (rule subsetD)
    then consider "c = color_alpha @ color_beta" | "c \<in> set colors" using merged_mem by blast
    then show ?thesis
    proof cases
      case 1 then show ?thesis using joined by simp
    next
      case 2
      then have "color_ok (cells_of corridors) c" by (rule oks)
      then show ?thesis by (rule color_ok_mono) (simp add: T)
    qed
  qed
  have inv': "link_inv W H cps colors' (corridors @ [hc, vc])"
    unfolding link_inv_def
  proof (intro conjI ballI)
    fix p assume "p \<in> set cps"
    then show "in_box W H p" using inv by (simp add: link_inv_def)
  next
    fix c assume "c \<in> set colors'"
    then show "color_ok (cells_of (corridors @ [hc, vc])) c" using ok' by (simp add: T_def)
  next
    fix r assume "r \<in> set (corridors @ [hc, vc])"
    then have "r \<in> set corridors \<or> r = hc \<or> r = vc" by auto
    then show "rect_in_box W H r"
      using boxes mk2_l_corridor_in_box[OF hv pa_box pb_box] by blast
  qed
  have len': "length colors' = length colors - 1"
    unfolding colors'_def using k lm by (simp add: delete_nth_length)
  have m0: "merged ! 0 = color_alpha @ color_beta" using pos by (simp add: merged_def)
  have first: "color_alpha @ color_beta \<in> set colors'"
  proof -
    have "merged ! 0 \<in> set (take k merged @ drop (Suc k) merged)"
      using k pos lm by (intro delete_nth_mem) auto
    then show ?thesis by (simp add: colors'_def m0)
  qed
  have keeps: "\<exists>c'\<in>set colors'. set c \<subseteq> set c'" if "c \<in> set colors" for c
  proof -
    from that obtain i where i: "i < length colors" "c = colors ! i" by (auto simp: in_set_conv_nth)
    show ?thesis
    proof (cases "i = 0 \<or> i = k")
      case True
      then have "set c \<subseteq> set (color_alpha @ color_beta)"
        using i by (auto simp: color_alpha_def color_beta_def)
      with first show ?thesis by blast
    next
      case False
      then have "merged ! i = c" using i by (simp add: merged_def)
      moreover have "merged ! i \<in> set (take k merged @ drop (Suc k) merged)"
        using False i lm by (intro delete_nth_mem) auto
      ultimately have "c \<in> set colors'" by (simp add: colors'_def)
      then show ?thesis by blast
    qed
  qed
  show ?thesis using res inv' len' keeps by blast
qed

lemma mk2_merge_loop:
  assumes "link_inv W H cps colors corridors" "colors \<noteq> []"
  shows "\<exists>colors' corridors' g'.
           foldE (\<lambda>each_remaining_color. mk2_merge_step) xs (colors, corridors, g)
             = Inr (colors', corridors', g')
         \<and> link_inv W H cps colors' corridors'
         \<and> colors' \<noteq> []
         \<and> length colors' - 1 \<le> length colors - 1 - length xs
         \<and> (\<forall>c\<in>set colors. \<exists>c'\<in>set colors'. set c \<subseteq> set c')"
  using assms
proof (induction xs arbitrary: colors corridors g)
  case Nil
  then show ?case by auto
next
  case (Cons x xs)
  show ?case
  proof (cases "length colors > 1")
    case True
    from mk2_merge_step_ok[OF Cons.prems(1) True, of g]
    obtain colors1 corridors1 g1 where
      s1: "mk2_merge_step (colors, corridors, g) = Inr (colors1, corridors1, g1)"
      and inv1: "link_inv W H cps colors1 corridors1"
      and len1: "length colors1 = length colors - 1"
      and keep1: "\<forall>c\<in>set colors. \<exists>c'\<in>set colors1. set c \<subseteq> set c'"
      by blast
    have ne1: "colors1 \<noteq> []" using len1 True by (cases colors1) auto
    from Cons.IH[OF inv1 ne1, of g1]
    obtain colors2 corridors2 g2 where
      s2: "foldE (\<lambda>each_remaining_color. mk2_merge_step) xs (colors1, corridors1, g1)
             = Inr (colors2, corridors2, g2)"
      and inv2: "link_inv W H cps colors2 corridors2"
      and ne2: "colors2 \<noteq> []"
      and len2: "length colors2 - 1 \<le> length colors1 - 1 - length xs"
      and keep2: "\<forall>c\<in>set colors1. \<exists>c'\<in>set colors2. set c \<subseteq> set c'"
      by blast
    have f: "foldE (\<lambda>each_remaining_color. mk2_merge_step) (x # xs) (colors, corridors, g)
             = Inr (colors2, corridors2, g2)"
      using s1 s2 by simp
    have len: "length colors2 - 1 \<le> length colors - 1 - length (x # xs)"
      using len2 len1 by simp
    have keep: "\<forall>c\<in>set colors. \<exists>c'\<in>set colors2. set c \<subseteq> set c'"
      using keep1 keep2 by (meson subset_trans)
    show ?thesis using f inv2 ne2 len keep by blast
  next
    case False
    then have s1: "mk2_merge_step (colors, corridors, g) = Inr (colors, corridors, g)"
      by (simp add: mk2_merge_step_def)
    from Cons.IH[OF Cons.prems, of g]
    obtain colors2 corridors2 g2 where
      s2: "foldE (\<lambda>each_remaining_color. mk2_merge_step) xs (colors, corridors, g)
             = Inr (colors2, corridors2, g2)"
      and inv2: "link_inv W H cps colors2 corridors2"
      and ne2: "colors2 \<noteq> []"
      and len2: "length colors2 - 1 \<le> length colors - 1 - length xs"
      and keep2: "\<forall>c\<in>set colors. \<exists>c'\<in>set colors2. set c \<subseteq> set c'"
      by blast
    have f: "foldE (\<lambda>each_remaining_color. mk2_merge_step) (x # xs) (colors, corridors, g)
             = Inr (colors2, corridors2, g2)"
      using s1 s2 by simp
    have "length colors - 1 = 0" using False by simp
    then have len: "length colors2 - 1 \<le> length colors - 1 - length (x # xs)"
      using len2 by simp
    show ?thesis using f inv2 ne2 len keep2 by blast
  qed
qed

lemma mk2_merge_colors_ok:
  assumes "link_inv W H cps colors corridors" "colors \<noteq> []"
  shows "\<exists>c corridors' g'.
           mk2_merge_colors (colors, corridors, g) = Inr ([c], corridors', g')
         \<and> link_inv W H cps [c] corridors'
         \<and> (\<forall>c0\<in>set colors. set c0 \<subseteq> set c)"
proof -
  from mk2_merge_loop[OF assms, of "[0..<length colors]" g]
  obtain colors' corridors' g' where
    f: "foldE (\<lambda>each_remaining_color. mk2_merge_step) [0..<length colors] (colors, corridors, g)
             = Inr (colors', corridors', g')"
    and inv': "link_inv W H cps colors' corridors'"
    and ne: "colors' \<noteq> []"
    and len: "length colors' - 1 \<le> length colors - 1 - length [0..<length colors]"
    and keep: "\<forall>c\<in>set colors. \<exists>c'\<in>set colors'. set c \<subseteq> set c'"
    by blast
  from len have "length colors' \<le> 1" by simp
  with ne obtain c where c: "colors' = [c]" by (cases colors') auto
  have "mk2_merge_colors (colors, corridors, g) = Inr ([c], corridors', g')"
    using f c by (simp add: mk2_merge_colors_def)
  moreover have "\<forall>c0\<in>set colors. set c0 \<subseteq> set c" using keep c by simp
  ultimately show ?thesis using inv' c by blast
qed

subsection \<open>Rasterization of rectangles inside the map\<close>

lemma write_rect_total:
  assumes op: "cell_op W H \<phi> f"
    and phi: "\<And>v. 0 \<le> v \<Longrightarrow> 1 \<le> \<phi> v \<and> v \<le> \<phi> v"
    and d: "grid_dims m W H"
    and nn: "\<And>p. in_box W H p \<Longrightarrow> 0 \<le> cell_at m p"
    and rb: "rect_in_box W H (x, y, w, h)"
  shows "\<exists>m'. foldE (\<lambda>hu. foldE (\<lambda>wu m'. f m' (y + hu) (x + wu)) (py_range 0 w))
                  (py_range 0 h) m = Inr m'
           \<and> grid_dims m' W H
           \<and> (\<forall>p. in_box W H p \<longrightarrow> 0 \<le> cell_at m' p \<and> cell_at m p \<le> cell_at m' p)
           \<and> (\<forall>p\<in>rect_cells (x, y, w, h). 1 \<le> cell_at m' p)"
proof -
  have xy: "0 \<le> x" "0 \<le> y" and c: "h \<le> 0 \<or> w \<le> 0 \<or> (x + w \<le> W \<and> y + h \<le> H)"
    using rb by (simp_all add: rect_in_box_def)
  from rect_write[OF op d xy, of h w] c
  obtain m' where f: "foldE (\<lambda>hu. foldE (\<lambda>wu m'. f m' (y + hu) (x + wu)) (py_range 0 w))
                  (py_range 0 h) m = Inr m'"
    and d': "grid_dims m' W H"
    and e: "\<And>p. in_box W H p \<Longrightarrow> cell_at m' p
              = (if p \<in> rect_cells (x, y, w, h) then \<phi> (cell_at m p) else cell_at m p)"
    by (simp only: if_True) blast
  have a: "0 \<le> cell_at m' p \<and> cell_at m p \<le> cell_at m' p" if pb: "in_box W H p" for p
    using e[OF pb] phi[OF nn[OF pb]] nn[OF pb] by (cases "p \<in> rect_cells (x, y, w, h)") auto
  have b: "1 \<le> cell_at m' p" if pr: "p \<in> rect_cells (x, y, w, h)" for p
  proof -
    have pb: "in_box W H p" by (rule rect_in_box_cells[OF rb pr])
    show ?thesis using e[OF pb] phi[OF nn[OF pb]] pr by simp
  qed
  show ?thesis using f d' a b by blast
qed

lemma write_list_total:
  assumes step: "\<And>r m. rect_in_box W H r \<Longrightarrow> grid_dims m W H
            \<Longrightarrow> (\<And>p. in_box W H p \<Longrightarrow> 0 \<le> cell_at m p)
            \<Longrightarrow> \<exists>m'. wr r m = Inr m' \<and> grid_dims m' W H
                   \<and> (\<forall>p. in_box W H p \<longrightarrow> 0 \<le> cell_at m' p \<and> cell_at m p \<le> cell_at m' p)
                   \<and> (\<forall>p\<in>rect_cells r. 1 \<le> cell_at m' p)"
  shows "\<forall>r\<in>set rs. rect_in_box W H r \<Longrightarrow> grid_dims m W H
     \<Longrightarrow> (\<And>p. in_box W H p \<Longrightarrow> 0 \<le> cell_at m p)
     \<Longrightarrow> \<exists>m'. foldE wr rs m = Inr m' \<and> grid_dims m' W H
           \<and> (\<forall>p. in_box W H p \<longrightarrow> 0 \<le> cell_at m' p \<and> cell_at m p \<le> cell_at m' p)
           \<and> (\<forall>p\<in>cells_of rs. 1 \<le> cell_at m' p)"
proof (induction rs arbitrary: m)
  case Nil
  then show ?case by (simp add: cells_of_def)
next
  case (Cons r rs)
  have rb: "rect_in_box W H r" and rbs: "\<forall>r\<in>set rs. rect_in_box W H r"
    using Cons.prems(1) by simp_all
  from step[OF rb Cons.prems(2,3)] obtain m1 where
    w1: "wr r m = Inr m1" and d1: "grid_dims m1 W H"
    and a1: "\<And>p. in_box W H p \<Longrightarrow> 0 \<le> cell_at m1 p \<and> cell_at m p \<le> cell_at m1 p"
    and b1: "\<And>p. p \<in> rect_cells r \<Longrightarrow> 1 \<le> cell_at m1 p"
    by blast
  have nn1: "\<And>p. in_box W H p \<Longrightarrow> 0 \<le> cell_at m1 p" using a1 by blast
  from Cons.IH[OF rbs d1 nn1] obtain m2 where
    w2: "foldE wr rs m1 = Inr m2" and d2: "grid_dims m2 W H"
    and a2: "\<And>p. in_box W H p \<Longrightarrow> 0 \<le> cell_at m2 p \<and> cell_at m1 p \<le> cell_at m2 p"
    and b2: "\<And>p. p \<in> cells_of rs \<Longrightarrow> 1 \<le> cell_at m2 p"
    by blast
  have f: "foldE wr (r # rs) m = Inr m2" using w1 w2 by simp
  have a: "0 \<le> cell_at m2 p \<and> cell_at m p \<le> cell_at m2 p" if pb: "in_box W H p" for p
    using a1[OF pb] a2[OF pb] by linarith
  have b: "1 \<le> cell_at m2 p" if pc: "p \<in> cells_of (r # rs)" for p
  proof (cases "p \<in> rect_cells r")
    case True
    have pb: "in_box W H p" by (rule rect_in_box_cells[OF rb True])
    show ?thesis using b1[OF True] a2[OF pb] by linarith
  next
    case False
    then have "p \<in> cells_of rs" using pc by (auto simp: cells_of_def)
    then show ?thesis by (rule b2)
  qed
  show ?case using f d2 a b by blast
qed

lemma mk2_write_room_total:
  assumes "rect_in_box W H r" "grid_dims m W H" "\<And>p. in_box W H p \<Longrightarrow> 0 \<le> cell_at m p"
  shows "\<exists>m'. mk2_write_room r m = Inr m' \<and> grid_dims m' W H
           \<and> (\<forall>p. in_box W H p \<longrightarrow> 0 \<le> cell_at m' p \<and> cell_at m p \<le> cell_at m' p)
           \<and> (\<forall>p\<in>rect_cells r. 1 \<le> cell_at m' p)"
proof -
  obtain x y w h where r: "r = (x, y, w, h)" by (cases r) auto
  have phi: "\<And>v::int. 0 \<le> v \<Longrightarrow> 1 \<le> v + 1 \<and> v \<le> v + 1" by simp
  show ?thesis
    using write_rect_total[OF cell_op_incr phi assms(2,3) assms(1)[unfolded r]]
    unfolding r mk2_write_room_def by simp
qed

lemma mk2_write_corridor_total:
  assumes "rect_in_box W H r" "grid_dims m W H" "\<And>p. in_box W H p \<Longrightarrow> 0 \<le> cell_at m p"
  shows "\<exists>m'. mk2_write_corridor r m = Inr m' \<and> grid_dims m' W H
           \<and> (\<forall>p. in_box W H p \<longrightarrow> 0 \<le> cell_at m' p \<and> cell_at m p \<le> cell_at m' p)
           \<and> (\<forall>p\<in>rect_cells r. 1 \<le> cell_at m' p)"
proof -
  obtain x y w h where r: "r = (x, y, w, h)" by (cases r) auto
  have phi: "\<And>v::int. 0 \<le> v \<Longrightarrow> 1 \<le> (if v = 0 then v + 1 else v) \<and> v \<le> (if v = 0 then v + 1 else v)"
    by simp
  show ?thesis
    using write_rect_total[OF cell_op_incr_if_zero phi assms(2,3) assms(1)[unfolded r]]
    unfolding r mk2_write_corridor_def by simp
qed

lemma excavated_cell:
  assumes "grid_dims m W H" "in_box W H p" "1 \<le> cell_at m p"
  shows "excavated m p"
proof -
  have l: "int (length m) = H" using assms(1) by (simp add: grid_dims_def)
  have b: "0 \<le> fst p" "fst p < W" "0 \<le> snd p" "snd p < H" using assms(2) by (simp_all add: in_box_def)
  have w: "int (length (m ! nat (snd p))) = W" by (rule grid_dims_row[OF assms(1) b(3,4)])
  show ?thesis using l b w assms(3) by (simp add: excavated_def cell_at_def)
qed

lemma mk2_rasterize_total:
  assumes rooms: "\<forall>r\<in>set rooms. rect_in_box (map_width self) (map_height self) r"
    and corridors: "\<forall>r\<in>set corridors. rect_in_box (map_width self) (map_height self) r"
    and W: "0 \<le> map_width self" and H: "0 \<le> map_height self"
  shows "\<exists>m. mk2_rasterize self rooms corridors = Inr m
           \<and> (\<forall>p\<in>cells_of rooms \<union> cells_of corridors. excavated m p)"
proof -
  define Wd where "Wd = map_width self"
  define Hd where "Hd = map_height self"
  have d0: "grid_dims (blank_map (map_width self) (map_height self)) Wd Hd"
    using blank_map_dims[of "map_width self" "map_height self"] W H by (simp add: Wd_def Hd_def)
  have z0: "\<And>p. in_box Wd Hd p \<Longrightarrow> 0 \<le> cell_at (blank_map (map_width self) (map_height self)) p"
    using blank_map_cell[of "map_width self" "map_height self"] W H by (simp add: Wd_def Hd_def)
  from write_list_total[where wr = mk2_write_room, OF mk2_write_room_total rooms[folded Wd_def Hd_def] d0 z0]
  obtain m1 where
    f1: "foldE mk2_write_room rooms (blank_map (map_width self) (map_height self)) = Inr m1"
    and d1: "grid_dims m1 Wd Hd"
    and a1: "\<And>p. in_box Wd Hd p \<Longrightarrow> 0 \<le> cell_at m1 p"
    and b1: "\<And>p. p \<in> cells_of rooms \<Longrightarrow> 1 \<le> cell_at m1 p"
    by blast
  from write_list_total[where wr = mk2_write_corridor, OF mk2_write_corridor_total corridors[folded Wd_def Hd_def] d1 a1]
  obtain m2 where
    f2: "foldE mk2_write_corridor corridors m1 = Inr m2"
    and d2: "grid_dims m2 Wd Hd"
    and a2: "\<And>p. in_box Wd Hd p \<Longrightarrow> cell_at m1 p \<le> cell_at m2 p"
    and b2: "\<And>p. p \<in> cells_of corridors \<Longrightarrow> 1 \<le> cell_at m2 p"
    by blast
  have res: "mk2_rasterize self rooms corridors = Inr m2"
    using f1 f2 by (simp add: mk2_rasterize_def)
  have "excavated m2 p" if "p \<in> cells_of rooms \<union> cells_of corridors" for p
  proof (cases "p \<in> cells_of corridors")
    case True
    have "in_box Wd Hd p" by (rule cells_of_in_box[OF corridors[folded Wd_def Hd_def] True])
    then show ?thesis using d2 b2[OF True] by (intro excavated_cell)
  next
    case False
    then have r: "p \<in> cells_of rooms" using that by simp
    have pb: "in_box Wd Hd p" by (rule cells_of_in_box[OF rooms[folded Wd_def Hd_def] r])
    have "1 \<le> cell_at m2 p" using b1[OF r] a2[OF pb] by linarith
    then show ?thesis using d2 pb by (intro excavated_cell)
  qed
  with res show ?thesis by blast
qed

subsection \<open>Accepted rooms\<close>

lemma rect_cells_center:
  assumes "p \<in> rect_cells r"
  shows "mk2_return_the_center_of_this_rectangle r \<in> rect_cells r"
proof -
  obtain x y w h where r: "r = (x, y, w, h)" by (cases r) auto
  obtain px py where p: "p = (px, py)" by (cases p) auto
  have "0 < w" "0 < h" using assms by (auto simp: r p rect_cells_def)
  then have "0 \<le> w div 2" "w div 2 < w" "0 \<le> h div 2" "h div 2 < h" by simp_all
  then show ?thesis by (simp add: r rect_cells_def mk2_return_the_center_of_this_rectangle_def)
qed

lemma room_fits_box:
  assumes "room_fits self r" "0 \<le> room_min_size self"
  shows "rect_in_box (map_width self) (map_height self) r"
    "in_box (map_width self) (map_height self) (mk2_return_the_center_of_this_rectangle r)"
    "0 \<le> map_width self" "0 \<le> map_height self"
proof -
  obtain x y w h where r: "r = (x, y, w, h)" by (cases r) auto
  have f: "0 \<le> w" "0 \<le> h" "1 \<le> x" "x \<le> (map_width self - 1) - w"
      "1 \<le> y" "y \<le> (map_height self - 1) - h"
    using assms by (simp_all add: room_fits_def r)
  have dv: "0 \<le> w div 2" "w div 2 \<le> w" "0 \<le> h div 2" "h div 2 \<le> h" using f(1,2) by simp_all
  show "rect_in_box (map_width self) (map_height self) r"
    using f by (simp add: rect_in_box_def r)
  show "in_box (map_width self) (map_height self) (mk2_return_the_center_of_this_rectangle r)"
    using f dv by (simp add: in_box_def r mk2_return_the_center_of_this_rectangle_def)
  show "0 \<le> map_width self" "0 \<le> map_height self" using f by linarith+
qed

lemma mk2_rooms_distinct_centers:
  assumes pl: "mk2_rooms_placed self rooms" and sz: "0 \<le> room_min_size self"
    and ij: "i < j" "j < length rooms"
  shows "mk2_return_the_center_of_this_rectangle (rooms ! i)
           \<noteq> mk2_return_the_center_of_this_rectangle (rooms ! j)"
proof
  assume eq: "mk2_return_the_center_of_this_rectangle (rooms ! i)
           = mk2_return_the_center_of_this_rectangle (rooms ! j)"
  obtain ax ay aw ah where a: "rooms ! j = (ax, ay, aw, ah)" by (cases "rooms ! j") auto
  obtain bx "by" bw bh where b: "rooms ! i = (bx, by, bw, bh)" by (cases "rooms ! i") auto
  have fits: "room_fits self (rooms ! i)" "room_fits self (rooms ! j)"
    using pl ij by (simp_all add: mk2_rooms_placed_def list_all_length)
  then have nn: "0 \<le> aw" "0 \<le> ah" "0 \<le> bw" "0 \<le> bh"
    using sz by (simp_all add: room_fits_def a b)
  have "mk2_check_these_two_rectangles_for_intersection (ax, ay, aw, ah) (bx, by, bw, bh)"
    by (rule mk2_same_center_intersect[OF _ nn]) (simp add: eq[unfolded a b])
  moreover have "\<not> mk2_check_these_two_rectangles_for_intersection (rooms ! j) (rooms ! i)"
    using pl ij sorted_wrt_nth_less[of _ rooms i j] by (auto simp: mk2_rooms_placed_def)
  ultimately show False by (simp add: a b)
qed

lemma mk2_rooms_other_center:
  assumes pl: "mk2_rooms_placed self rooms" and sz: "0 \<le> room_min_size self"
    and two: "2 \<le> length rooms" and r: "r \<in> set rooms"
  shows "\<exists>p\<in>set (map mk2_return_the_center_of_this_rectangle rooms).
           p \<noteq> mk2_return_the_center_of_this_rectangle r"
proof -
  from r obtain i where i: "i < length rooms" "r = rooms ! i" by (auto simp: in_set_conv_nth)
  define j where "j = (if i = 0 then 1 else (0::nat))"
  have j: "j < length rooms" "j \<noteq> i" using two by (auto simp: j_def)
  have "mk2_return_the_center_of_this_rectangle (rooms ! j)
          \<noteq> mk2_return_the_center_of_this_rectangle (rooms ! i)"
  proof (cases "i < j")
    case True
    from mk2_rooms_distinct_centers[OF pl sz True j(1)] show ?thesis by simp
  next
    case False
    then have "j < i" using j(2) by simp
    from mk2_rooms_distinct_centers[OF pl sz this i(1)] show ?thesis by simp
  qed
  moreover have "mk2_return_the_center_of_this_rectangle (rooms ! j)
          \<in> set (map mk2_return_the_center_of_this_rectangle rooms)"
    using j(1) by simp
  ultimately show ?thesis using i(2) by blast
qed

lemma mk2_link_and_draw_connected:
  assumes pl: "mk2_rooms_placed self rooms" and sz: "0 \<le> room_min_size self"
    and two: "2 \<le> length rooms"
  shows "\<exists>m. mk2_link_and_draw self rooms g = Inr m
           \<and> (\<forall>r1\<in>set rooms. \<forall>r2\<in>set rooms. \<forall>c1\<in>rect_cells r1. \<forall>c2\<in>rect_cells r2.
                 reachable m c1 c2)"
proof -
  define W where "W = map_width self"
  define H where "H = map_height self"
  define cen where "cen = mk2_return_the_center_of_this_rectangle"
  have fits: "\<And>r. r \<in> set rooms \<Longrightarrow> room_fits self r"
    using pl by (simp add: mk2_rooms_placed_def list_all_iff)
  have ne: "rooms \<noteq> []" using two by auto
  then obtain r0 where r0: "r0 \<in> set rooms" by (cases rooms) auto
  have WH: "0 \<le> map_width self" "0 \<le> map_height self"
    using room_fits_box(3,4)[OF fits[OF r0] sz] by simp_all
  have rbox: "\<forall>r\<in>set rooms. rect_in_box (map_width self) (map_height self) r"
    using room_fits_box(1)[OF fits sz] by blast
  have cbox: "\<And>r. r \<in> set rooms \<Longrightarrow> in_box W H (cen r)"
    using room_fits_box(2)[OF fits sz] by (simp add: W_def H_def cen_def)
  have inv0: "link_inv W H (map cen rooms) [] []"
    using cbox by (auto simp: link_inv_def)
  have pre: "\<forall>r\<in>set rooms. in_box W H (mk2_return_the_center_of_this_rectangle r)
                  \<and> (\<exists>p\<in>set (map cen rooms). p \<noteq> mk2_return_the_center_of_this_rectangle r)"
    using cbox mk2_rooms_other_center[OF pl sz two] by (simp add: cen_def)
  from mk2_first_pass_loop[OF inv0 pre, of g]
  obtain cps1 colors1 corridors1 g1 where
    fp: "foldE mk2_link_room rooms (map cen rooms, [], [], g) = Inr (cps1, colors1, corridors1, g1)"
    and inv1: "link_inv W H cps1 colors1 corridors1"
    and in1: "\<forall>r\<in>set rooms. \<exists>c\<in>set colors1. mk2_return_the_center_of_this_rectangle r \<in> set c"
    and ne1: "colors1 \<noteq> []"
    using ne by blast
  from mk2_merge_colors_ok[OF inv1 ne1, of g1]
  obtain c corridors2 g2 where
    mg: "mk2_merge_colors (colors1, corridors1, g1) = Inr ([c], corridors2, g2)"
    and inv2: "link_inv W H cps1 [c] corridors2"
    and sub: "\<forall>c0\<in>set colors1. set c0 \<subseteq> set c"
    by blast
  have cok: "color_ok (cells_of corridors2) c" using inv2 by (simp add: link_inv_def)
  have corr: "\<forall>r\<in>set corridors2. rect_in_box (map_width self) (map_height self) r"
    using inv2 by (simp add: link_inv_def W_def H_def)
  from mk2_rasterize_total[OF rbox corr WH]
  obtain m where ra: "mk2_rasterize self rooms corridors2 = Inr m"
    and ex: "\<And>p. p \<in> cells_of rooms \<union> cells_of corridors2 \<Longrightarrow> excavated m p"
    by blast
  have res: "mk2_link_and_draw self rooms g = Inr m"
    using fp mg ra by (simp add: mk2_link_and_draw_def mk2_first_pass_def cen_def)
  define E where "E = {q. excavated m q}"
  have roomE: "rect_cells r \<subseteq> E" if "r \<in> set rooms" for r
    using that ex by (auto simp: E_def cells_of_def)
  have corrE: "cells_of corridors2 \<subseteq> E" using ex by (auto simp: E_def)
  have cenc: "mk2_return_the_center_of_this_rectangle r \<in> set c" if "r \<in> set rooms" for r
    using in1 sub that by blast
  have "reachable m c1 c2"
    if r1: "r1 \<in> set rooms" and r2: "r2 \<in> set rooms"
      and c1: "c1 \<in> rect_cells r1" and c2: "c2 \<in> rect_cells r2" for r1 r2 c1 c2
  proof -
    have "connected_in (rect_cells r1) c1 (mk2_return_the_center_of_this_rectangle r1)"
      using rect_cells_connected[of r1] c1 rect_cells_center[OF c1] by (simp add: connected_set_def)
    then have s1: "connected_in E c1 (mk2_return_the_center_of_this_rectangle r1)"
      using roomE[OF r1] by (rule connected_in_mono)
    have "connected_in (cells_of corridors2) (mk2_return_the_center_of_this_rectangle r1)
            (mk2_return_the_center_of_this_rectangle r2)"
      using cok cenc[OF r1] cenc[OF r2] by (simp add: color_ok_def)
    then have s2: "connected_in E (mk2_return_the_center_of_this_rectangle r1)
            (mk2_return_the_center_of_this_rectangle r2)"
      using corrE by (rule connected_in_mono)
    have "connected_in (rect_cells r2) (mk2_return_the_center_of_this_rectangle r2) c2"
      using rect_cells_connected[of r2] c2 rect_cells_center[OF c2] by (simp add: connected_set_def)
    then have s3: "connected_in E (mk2_return_the_center_of_this_rectangle r2) c2"
      using roomE[OF r2] by (rule connected_in_mono)
    have "connected_in E c1 c2"
      by (rule connected_in_trans[OF s3 connected_in_trans[OF s2 s1]])
    then show ?thesis by (simp add: reachable_def E_def)
  qed
  with res show ?thesis by blast
qed

subsection \<open>Loops that append one value per iteration\<close>

lemma foldE_collect:
  "foldE (\<lambda>x acc. bindE (h x) (\<lambda>v. Inr (acc @ [v]))) xs acc = Inr res
     \<longleftrightarrow> (\<exists>vs. res = acc @ vs \<and> list_all2 (\<lambda>x v. h x = Inr v) xs vs)"
proof (induction xs arbitrary: acc)
  case Nil
  then show ?case by auto
next
  case (Cons x xs)
  show ?case
  proof (cases "h x")
    case (Inl e)
    then show ?thesis by (auto simp: list_all2_Cons1)
  next
    case (Inr v)
    then show ?thesis by (auto simp: Cons.IH list_all2_Cons1)
  qed
qed

lemma foldE_collect_total:
  assumes "\<And>x. x \<in> set xs \<Longrightarrow> \<exists>v. h x = Inr v \<and> Q v"
  shows "\<exists>vs. foldE (\<lambda>x acc. bindE (h x) (\<lambda>v. Inr (acc @ [v]))) xs acc = Inr (acc @ vs)
           \<and> length vs = length xs \<and> (\<forall>v\<in>set vs. Q v)"
  using assms
proof (induction xs arbitrary: acc)
  case Nil
  then show ?case by simp
next
  case (Cons x xs)
  from Cons.prems[of x] obtain v where v: "h x = Inr v" "Q v" by auto
  from Cons.IH[of "acc @ [v]"] Cons.prems obtain vs where
    vs: "foldE (\<lambda>x acc. bindE (h x) (\<lambda>v. Inr (acc @ [v]))) xs (acc @ [v]) = Inr ((acc @ [v]) @ vs)"
      "length vs = length xs" "\<forall>v\<in>set vs. Q v"
    by auto
  show ?case
    by (rule exI[of _ "v # vs"]) (use v vs in simp)
qed

lemma perlin_noise_row_aux:
  "\<forall>v\<in>set acc. 0 \<le> v \<and> v \<le> 1 \<Longrightarrow>
   \<exists>row g'. foldE (\<lambda>each_column (noise_row_handler, g).
              bindE (randint 0 1000 g) (\<lambda>(v, g').
              Inr (noise_row_handler @ [real_of_int v / 1000], g'))) xs (acc, g) = Inr (row, g')
     \<and> length row = length acc + length xs \<and> (\<forall>v\<in>set row. 0 \<le> v \<and> v \<le> 1)"
proof (induction xs arbitrary: acc g)
  case Nil
  then show ?case by simp
next
  case (Cons x xs)
  obtain v g1 where r: "randint 0 1000 g = Inr (v, g1)" by (simp add: randint_def)
  from randint_bounds[OF r] have b: "0 \<le> real_of_int v / 1000" "real_of_int v / 1000 \<le> 1" by simp_all
  have "\<forall>u\<in>set (acc @ [real_of_int v / 1000]). 0 \<le> u \<and> u \<le> 1" using Cons.prems b by auto
  from Cons.IH[OF this, of g1] show ?case using r by simp
qed

lemma perlin_noise_row_ok:
  "\<exists>row g'. perlin_noise_row width g = Inr (row, g')
     \<and> length row = nat width \<and> (\<forall>v\<in>set row. 0 \<le> v \<and> v \<le> 1)"
  unfolding perlin_noise_row_def using perlin_noise_row_aux[of "[]" "py_range 0 width" g] by simp

lemma perlin_noise_rows_aux:
  "\<forall>row\<in>set acc. length row = nat width \<and> (\<forall>v\<in>set row. 0 \<le> v \<and> v \<le> 1) \<Longrightarrow>
   \<exists>rows g'. foldE (\<lambda>each_row (rows, g).
              bindE (perlin_noise_row width g) (\<lambda>(noise_row_handler, g').
              Inr (rows @ [noise_row_handler], g'))) xs (acc, g) = Inr (rows, g')
     \<and> length rows = length acc + length xs
     \<and> (\<forall>row\<in>set rows. length row = nat width \<and> (\<forall>v\<in>set row. 0 \<le> v \<and> v \<le> 1))"
proof (induction xs arbitrary: acc g)
  case Nil
  then show ?case by simp
next
  case (Cons x xs)
  from perlin_noise_row_ok[of width g] obtain row g1 where
    r: "perlin_noise_row width g = Inr (row, g1)" "length row = nat width"
      "\<forall>v\<in>set row. 0 \<le> v \<and> v \<le> 1" by blast
  have "\<forall>row\<in>set (acc @ [row]). length row = nat width \<and> (\<forall>v\<in>set row. 0 \<le> v \<and> v \<le> 1)"
    using Cons.prems r by auto
  from Cons.IH[OF this, of g1] show ?case using r(1) by simp
qed

lemma perlin_noise_rows_ok:
  "\<exists>rows g'. perlin_noise_rows width height g = Inr (rows, g') \<and> unit_rows width height rows"
  unfolding perlin_noise_rows_def unit_rows_def
  using perlin_noise_rows_aux[of "[]" width "py_range 0 height" g] by simp

subsection \<open>PerlinNoiseGenerator: smoothing\<close>

lemma py_int_nonneg: "0 \<le> x \<Longrightarrow> py_int x = \<lfloor>x\<rfloor>"
  by (simp add: py_int_def)

lemma unit_rows_get:
  assumes "unit_rows W H rows" "0 \<le> r" "r < H" "0 \<le> c" "c < W"
  shows "\<exists>v. bindE (py_getitem rows r) (\<lambda>row. py_getitem row c) = Inr v \<and> 0 \<le> v \<and> v \<le> 1"
proof -
  have len: "length rows = nat H" and rows: "\<And>row. row \<in> set rows \<Longrightarrow> length row = nat W"
    and vals: "\<And>row v. row \<in> set rows \<Longrightarrow> v \<in> set row \<Longrightarrow> 0 \<le> v \<and> v \<le> 1"
    using assms(1) by (auto simp: unit_rows_def)
  have r: "nat r < length rows" using assms(2,3) len by simp
  then have mem: "rows ! nat r \<in> set rows" by simp
  have c: "nat c < length (rows ! nat r)" using rows[OF mem] assms(4,5) by simp
  have g1: "py_getitem rows r = Inr (rows ! nat r)"
    using assms(2) r by (simp add: py_getitem_def py_index_nonneg)
  have g2: "py_getitem (rows ! nat r) c = Inr (rows ! nat r ! nat c)"
    using assms(4) c by (simp add: py_getitem_def py_index_nonneg)
  have "rows ! nat r ! nat c \<in> set (rows ! nat r)" using c by simp
  from vals[OF mem this] show ?thesis using g1 g2 by simp
qed

lemma bilinear_unit:
  fixes fx fy a b c d :: real
  assumes "0 \<le> fx" "fx \<le> 1" "0 \<le> fy" "fy \<le> 1"
    "0 \<le> a" "a \<le> 1" "0 \<le> b" "b \<le> 1" "0 \<le> c" "c \<le> 1" "0 \<le> d" "d \<le> 1"
  shows "0 \<le> fx * fy * a + fx * (1 - fy) * b + (1 - fx) * fy * c + (1 - fx) * (1 - fy) * d"
    and "fx * fy * a + fx * (1 - fy) * b + (1 - fx) * fy * c + (1 - fx) * (1 - fy) * d \<le> 1"
proof -
  have w: "0 \<le> fx * fy" "0 \<le> fx * (1 - fy)" "0 \<le> (1 - fx) * fy" "0 \<le> (1 - fx) * (1 - fy)"
    using assms(1-4) by simp_all
  have "0 \<le> fx * fy * a" "0 \<le> fx * (1 - fy) * b" "0 \<le> (1 - fx) * fy * c"
      "0 \<le> (1 - fx) * (1 - fy) * d"
    using mult_nonneg_nonneg[OF w(1) assms(5)] mult_nonneg_nonneg[OF w(2) assms(7)]
      mult_nonneg_nonneg[OF w(3) assms(9)] mult_nonneg_nonneg[OF w(4) assms(11)] by simp_all
  then show "0 \<le> fx * fy * a + fx * (1 - fy) * b + (1 - fx) * fy * c + (1 - fx) * (1 - fy) * d"
    by linarith
  have "fx * fy * a \<le> fx * fy * 1" using w(1) assms(6) by (intro mult_left_mono)
  moreover have "fx * (1 - fy) * b \<le> fx * (1 - fy) * 1" using w(2) assms(8) by (intro mult_left_mono)
  moreover have "(1 - fx) * fy * c \<le> (1 - fx) * fy * 1" using w(3) assms(10) by (intro mult_left_mono)
  moreover have "(1 - fx) * (1 - fy) * d \<le> (1 - fx) * (1 - fy) * 1"
    using w(4) assms(12) by (intro mult_left_mono)
  moreover have "fx * fy * 1 + fx * (1 - fy) * 1 + (1 - fx) * fy * 1 + (1 - fx) * (1 - fy) * 1 = 1"
    by (simp add: algebra_simps)
  ultimately show "fx * fy * a + fx * (1 - fy) * b + (1 - fx) * fy * c + (1 - fx) * (1 - fy) * d \<le> 1"
    by linarith
qed

lemma perlin_smooth_noise_unit:
  assumes u: "unit_rows (noise_width self) (noise_height self) (noise_array self)"
    and W: "1 \<le> noise_width self" and H: "1 \<le> noise_height self"
    and x: "0 \<le> x" and y: "0 \<le> y"
  shows "\<exists>v. perlin_smooth_noise self x y = Inr v \<and> 0 \<le> v \<and> v \<le> 1"
proof -
  define W' where "W' = noise_width self"
  define H' where "H' = noise_height self"
  define x1 where "x1 = (py_int x + W') mod W'"
  define y1 where "y1 = (py_int y + H') mod H'"
  define x2 where "x2 = (x1 + W' - 1) mod W'"
  define y2 where "y2 = (y1 + H' - 1) mod H'"
  define fx where "fx = x - real_of_int (py_int x)"
  define fy where "fy = y - real_of_int (py_int y)"
  have Wp: "0 < W'" and Hp: "0 < H'" using W H by (simp_all add: W'_def H'_def)
  have bx: "0 \<le> x1" "x1 < W'" "0 \<le> x2" "x2 < W'" using Wp by (simp_all add: x1_def x2_def)
  have by': "0 \<le> y1" "y1 < H'" "0 \<le> y2" "y2 < H'" using Hp by (simp_all add: y1_def y2_def)
  have f: "0 \<le> fx" "fx \<le> 1" "0 \<le> fy" "fy \<le> 1"
    using x y by (simp_all add: fx_def fy_def py_int_nonneg) linarith+
  note u' = u[folded W'_def H'_def]
  from unit_rows_get[OF u' by'(1,2) bx(1,2)] obtain n11 where
    n11: "bindE (py_getitem (noise_array self) y1) (\<lambda>row. py_getitem row x1) = Inr n11"
      "0 \<le> n11" "n11 \<le> 1" by blast
  from unit_rows_get[OF u' by'(3,4) bx(1,2)] obtain n21 where
    n21: "bindE (py_getitem (noise_array self) y2) (\<lambda>row. py_getitem row x1) = Inr n21"
      "0 \<le> n21" "n21 \<le> 1" by blast
  from unit_rows_get[OF u' by'(1,2) bx(3,4)] obtain n12 where
    n12: "bindE (py_getitem (noise_array self) y1) (\<lambda>row. py_getitem row x2) = Inr n12"
      "0 \<le> n12" "n12 \<le> 1" by blast
  from unit_rows_get[OF u' by'(3,4) bx(3,4)] obtain n22 where
    n22: "bindE (py_getitem (noise_array self) y2) (\<lambda>row. py_getitem row x2) = Inr n22"
      "0 \<le> n22" "n22 \<le> 1" by blast
  have m: "py_mod (py_int x + W') W' = Inr x1" "py_mod (py_int y + H') H' = Inr y1"
      "py_mod (x1 + W' - 1) W' = Inr x2" "py_mod (y1 + H' - 1) H' = Inr y2"
    using Wp Hp unfolding py_mod_def x1_def y1_def x2_def y2_def by simp_all
  have "perlin_smooth_noise self x y
      = Inr (0 + fx * fy * n11 + fx * (1 - fy) * n21 + (1 - fx) * fy * n12 + (1 - fx) * (1 - fy) * n22)"
    unfolding perlin_smooth_noise_def Let_def W'_def[symmetric] H'_def[symmetric]
      fx_def[symmetric] fy_def[symmetric]
    by (simp only: m bindE_Inr n11(1) n21(1) n12(1) n22(1))
  then have res: "perlin_smooth_noise self x y
      = Inr (fx * fy * n11 + fx * (1 - fy) * n21 + (1 - fx) * fy * n12 + (1 - fx) * (1 - fy) * n22)"
    by simp
  show ?thesis
    using res bilinear_unit[OF f n11(2,3) n21(2,3) n12(2,3) n22(2,3)] by simp
qed

subsection \<open>PerlinNoiseGenerator: turbulence\<close>

lemma floor_half_less:
  fixes siz :: real
  assumes "1 \<le> siz"
  shows "nat \<lfloor>siz / 2\<rfloor> < nat \<lfloor>siz\<rfloor>"
proof -
  have a: "1 \<le> \<lfloor>siz\<rfloor>" using assms by linarith
  have "siz < real_of_int \<lfloor>siz\<rfloor> + 1" by linarith
  with a have "siz / 2 < real_of_int \<lfloor>siz\<rfloor>" by linarith
  then have "\<lfloor>siz / 2\<rfloor> < \<lfloor>siz\<rfloor>" by (simp add: floor_less_iff)
  with a show ?thesis by linarith
qed

lemma perlin_turbulence_loop_bound:
  assumes u: "unit_rows (noise_width self) (noise_height self) (noise_array self)"
    and W: "1 \<le> noise_width self" and H: "1 \<le> noise_height self"
    and x: "0 \<le> x" and y: "0 \<le> y"
  shows "0 \<le> siz \<Longrightarrow>
         \<exists>r. perlin_turbulence_loop self x y siz noise_value = Inr r
              \<and> noise_value \<le> r \<and> r \<le> noise_value + 2 * siz"
proof (induction "nat \<lfloor>siz\<rfloor>" arbitrary: siz noise_value rule: less_induct)
  case less
  show ?case
  proof (cases "1 \<le> siz")
    case False
    then have "perlin_turbulence_loop self x y siz noise_value = Inr noise_value"
      by (subst perlin_turbulence_loop.simps) simp
    then show ?thesis using less.prems by simp
  next
    case True
    have xs: "0 \<le> x / siz" and ys: "0 \<le> y / siz" using x y True by simp_all
    from perlin_smooth_noise_unit[OF u W H xs ys] obtain v where
      v: "perlin_smooth_noise self (x / siz) (y / siz) = Inr v" "0 \<le> v" "v \<le> 1" by blast
    have nz: "siz \<noteq> 0" using True by simp
    have step: "perlin_turbulence_loop self x y siz noise_value
        = perlin_turbulence_loop self x y (siz / 2) (noise_value + v * siz)"
      by (subst perlin_turbulence_loop.simps) (simp add: True py_div_def nz v(1))
    have h: "0 \<le> siz / 2" using True by simp
    from less.hyps[OF floor_half_less[OF True] h, of "noise_value + v * siz"] obtain r where
      r: "perlin_turbulence_loop self x y (siz / 2) (noise_value + v * siz) = Inr r"
        "noise_value + v * siz \<le> r" "r \<le> noise_value + v * siz + 2 * (siz / 2)"
      by blast
    have "0 \<le> v * siz" using v(2) True by simp
    moreover have "v * siz \<le> 1 * siz" using v(3) True by (intro mult_right_mono) simp_all
    ultimately have "noise_value \<le> r" "r \<le> noise_value + 2 * siz" using r(2,3) by linarith+
    then show ?thesis using step r(1) by simp
  qed
qed

lemma perlin_turbulence_unit:
  assumes u: "unit_rows (noise_width self) (noise_height self) (noise_array self)"
    and W: "1 \<le> noise_width self" and H: "1 \<le> noise_height self"
    and x: "0 \<le> x" and y: "0 \<le> y" and o1: "1 \<le> octaves"
  shows "\<exists>v. perlin_totally_justified_turbulence_function self x y octaves = Inr v
           \<and> 0 \<le> v \<and> v \<le> 256"
proof -
  have "0 \<le> octaves" using o1 by simp
  from perlin_turbulence_loop_bound[OF u W H x y this, of 0] obtain r where
    r: "perlin_turbulence_loop self x y octaves 0 = Inr r" "0 \<le> r" "r \<le> 2 * octaves"
    by auto
  have nz: "octaves \<noteq> 0" and pos: "0 < octaves" using o1 by simp_all
  define q where "q = r / octaves"
  have res: "perlin_totally_justified_turbulence_function self x y octaves = Inr (q * 128)"
    by (simp add: perlin_totally_justified_turbulence_function_def r(1) py_div_def nz q_def)
  have "0 \<le> q" unfolding q_def using r(2) pos by simp
  moreover have "q \<le> 2" unfolding q_def using r(3) pos by (simp add: pos_divide_le_eq)
  ultimately have "0 \<le> q * 128" "q * 128 \<le> 256" by simp_all
  then show ?thesis using res by blast
qed

lemma py_int_band: "0 \<le> v \<Longrightarrow> v \<le> 256 \<Longrightarrow> 0 \<le> py_int v \<and> py_int v \<le> 256"
  by (simp add: py_int_def)

lemma perlin_result_row_collect:
  "perlin_result_row self frequency octaves each_y
      = foldE (\<lambda>each_x acc.
           bindE (bindE (perlin_totally_justified_turbulence_function self
                       (real_of_int each_x * frequency) (real_of_int each_y * frequency) octaves)
                     (\<lambda>v. Inr (py_int v))) (\<lambda>v. Inr (acc @ [v])))
         (py_range 0 (noise_width self)) []"
proof -
  have "(\<lambda>each_x turbulated_noise_row_handler.
              bindE (perlin_totally_justified_turbulence_function self
                       (real_of_int each_x * frequency) (real_of_int each_y * frequency) octaves)
                (\<lambda>v. Inr (turbulated_noise_row_handler @ [py_int v])))
      = (\<lambda>each_x acc.
           bindE (bindE (perlin_totally_justified_turbulence_function self
                       (real_of_int each_x * frequency) (real_of_int each_y * frequency) octaves)
                     (\<lambda>v. Inr (py_int v))) (\<lambda>v. Inr (acc @ [v])))"
    by (intro ext) (simp add: bindE_def split: sum.splits)
  then show ?thesis unfolding perlin_result_row_def by simp
qed

subsection \<open>PerlinNoiseGenerator: the returned grid\<close>

lemma perlin_result_row_band:
  assumes u: "unit_rows (noise_width self) (noise_height self) (noise_array self)"
    and H: "1 \<le> noise_height self"
    and f: "0 \<le> frequency" and o1: "1 \<le> octaves" and y: "0 \<le> each_y"
  shows "\<exists>row. perlin_result_row self frequency octaves each_y = Inr row
           \<and> length row = nat (noise_width self) \<and> (\<forall>v\<in>set row. 0 \<le> v \<and> v \<le> 256)"
proof -
  have step: "\<exists>v. bindE (perlin_totally_justified_turbulence_function self
                       (real_of_int each_x * frequency) (real_of_int each_y * frequency) octaves)
                     (\<lambda>v. Inr (py_int v)) = Inr v \<and> (0 \<le> v \<and> v \<le> 256)"
    if "each_x \<in> set (py_range 0 (noise_width self))" for each_x
  proof -
    from that have ex: "0 \<le> each_x" "1 \<le> noise_width self" by auto
    have "0 \<le> real_of_int each_x * frequency" "0 \<le> real_of_int each_y * frequency"
      using ex(1) y f by simp_all
    from perlin_turbulence_unit[OF u ex(2) H this o1] obtain v where
      "perlin_totally_justified_turbulence_function self
         (real_of_int each_x * frequency) (real_of_int each_y * frequency) octaves = Inr v"
      "0 \<le> v" "v \<le> 256" by blast
    then show ?thesis using py_int_band[of v] by simp
  qed
  from foldE_collect_total[where Q = "\<lambda>v. 0 \<le> v \<and> v \<le> 256" and acc = "[]"
      and xs = "py_range 0 (noise_width self)"
      and h = "\<lambda>each_x. bindE (perlin_totally_justified_turbulence_function self
                       (real_of_int each_x * frequency) (real_of_int each_y * frequency) octaves)
                     (\<lambda>v. Inr (py_int v))", OF step]
  show ?thesis unfolding perlin_result_row_collect by simp
qed

lemma perlin_result_rows_band:
  assumes u: "unit_rows (noise_width self) (noise_height self) (noise_array self)"
    and f: "0 \<le> frequency" and o1: "1 \<le> octaves"
  shows "\<exists>result. foldE (\<lambda>each_y result.
                          bindE (perlin_result_row self frequency octaves each_y)
                            (\<lambda>row. Inr (result @ [row])))
                       (py_range 0 (noise_height self)) [] = Inr result
           \<and> length result = nat (noise_height self)
           \<and> (\<forall>row\<in>set result. length row = nat (noise_width self) \<and> (\<forall>v\<in>set row. 0 \<le> v \<and> v \<le> 256))"
proof -
  have step: "\<exists>row. perlin_result_row self frequency octaves each_y = Inr row
       \<and> (length row = nat (noise_width self) \<and> (\<forall>v\<in>set row. 0 \<le> v \<and> v \<le> 256))"
    if "each_y \<in> set (py_range 0 (noise_height self))" for each_y
  proof -
    from that have "0 \<le> each_y" "1 \<le> noise_height self" by auto
    from perlin_result_row_band[OF u this(2) f o1 this(1)] show ?thesis .
  qed
  from foldE_collect_total[where Q = "\<lambda>row. length row = nat (noise_width self) \<and> (\<forall>v\<in>set row. 0 \<le> v \<and> v \<le> 256)"
      and acc = "[]" and h = "perlin_result_row self frequency octaves"
      and xs = "py_range 0 (noise_height self)", OF step]
  show ?thesis by simp
qed

lemma perlin_generate_noise_band:
  assumes "0 \<le> frequency" "1 \<le> octaves"
  shows "\<exists>self' result g'.
           perlin_generate_noise self width height frequency octaves g = Inr (self', result, g')
         \<and> length result = nat height
         \<and> (\<forall>row\<in>set result. length row = nat width \<and> (\<forall>v\<in>set row. 0 \<le> v \<and> v \<le> 256))"
proof -
  from perlin_noise_rows_ok[of width height g] obtain rows g' where
    r: "perlin_noise_rows width height g = Inr (rows, g')" "unit_rows width height rows" by blast
  define self1 where "self1 = \<lparr> noise_array = rows, noise_width = width, noise_height = height \<rparr>"
  have u: "unit_rows (noise_width self1) (noise_height self1) (noise_array self1)"
    using r(2) by (simp add: self1_def)
  from perlin_result_rows_band[OF u assms] obtain result where
    res: "foldE (\<lambda>each_y result.
                          bindE (perlin_result_row self1 frequency octaves each_y)
                            (\<lambda>row. Inr (result @ [row])))
                       (py_range 0 (noise_height self1)) [] = Inr result"
      "length result = nat (noise_height self1)"
      "\<forall>row\<in>set result. length row = nat (noise_width self1) \<and> (\<forall>v\<in>set row. 0 \<le> v \<and> v \<le> 256)"
    by blast
  have hh: "noise_height self1 = height" by (simp add: self1_def)
  have "perlin_generate_noise self width height frequency octaves g = Inr (self1, result, g')"
    using r(1) res(1) by (simp add: perlin_generate_noise_def self1_def[symmetric] Let_def hh)
  then show ?thesis using res(2,3) by (simp add: self1_def)
qed

text \<open>Shape of every returned grid, for any frequency and octave count.\<close>

lemma perlin_result_row_length:
  assumes "perlin_result_row self frequency octaves each_y = Inr row"
  shows "length row = nat (noise_width self)"
proof -
  from assms[unfolded perlin_result_row_collect foldE_collect] obtain vs where
    "row = [] @ vs" "list_all2 (\<lambda>x v. bindE (perlin_totally_justified_turbulence_function self
                       (real_of_int x * frequency) (real_of_int each_y * frequency) octaves)
                     (\<lambda>v. Inr (py_int v)) = Inr v) (py_range 0 (noise_width self)) vs"
    by blast
  then show ?thesis using list_all2_lengthD by fastforce
qed

lemma perlin_generate_noise_shape:
  assumes "perlin_generate_noise self width height frequency octaves g = Inr (self', result, g')"
  shows "length result = nat height \<and> (\<forall>row\<in>set result. length row = nat width)"
proof -
  from assms obtain rows g1 where
    r: "perlin_noise_rows width height g = Inr (rows, g1)"
    by (cases "perlin_noise_rows width height g") (auto simp: perlin_generate_noise_def)
  define self1 where "self1 = \<lparr> noise_array = rows, noise_width = width, noise_height = height \<rparr>"
  have hh: "noise_height self1 = height" by (simp add: self1_def)
  have e: "perlin_generate_noise self width height frequency octaves g
      = bindE (foldE (\<lambda>each_y result.
                          bindE (perlin_result_row self1 frequency octaves each_y)
                            (\<lambda>row. Inr (result @ [row])))
                       (py_range 0 (noise_height self1)) [])
          (\<lambda>result. Inr (self1, result, g1))"
    using r by (simp add: perlin_generate_noise_def Let_def self1_def)
  from assms[unfolded e bindE_eq_Inr] have f: "foldE (\<lambda>each_y result.
                          bindE (perlin_result_row self1 frequency octaves each_y)
                            (\<lambda>row. Inr (result @ [row])))
                       (py_range 0 (noise_height self1)) [] = Inr result"
    by blast
  from f[unfolded foldE_collect] obtain vs where
    vs: "result = [] @ vs"
      "list_all2 (\<lambda>x v. perlin_result_row self1 frequency octaves x = Inr v)
         (py_range 0 (noise_height self1)) vs"
    by blast
  have len: "length result = nat height"
    using list_all2_lengthD[OF vs(2)] vs(1) by (simp add: self1_def)
  have "length row = nat width" if "row \<in> set result" for row
  proof -
    from that vs obtain i where i: "i < length vs" "row = vs ! i" by (auto simp: in_set_conv_nth)
    from list_all2_nthD2[OF vs(2) i(1)] have
      "perlin_result_row self1 frequency octaves (py_range 0 (noise_height self1) ! i) = Inr row"
      using i(2) by simp
    from perlin_result_row_length[OF this] show ?thesis by (simp add: self1_def)
  qed
  with len show ?thesis by blast
qed

subsection \<open>Components of the excavated cells\<close>

lemma adjacent4_neighbours4: "adjacent4 p q \<Longrightarrow> q \<in> set (neighbours4 p)"
proof -
  assume a: "adjacent4 p q"
  obtain px py where p: "p = (px, py)" by (cases p) auto
  obtain qx qy where q: "q = (qx, qy)" by (cases q) auto
  from a have "\<bar>px - qx\<bar> + \<bar>py - qy\<bar> = 1" by (simp add: adjacent4_def p q)
  then have "(qx = px + 1 \<and> qy = py) \<or> (qx = px - 1 \<and> qy = py)
      \<or> (qx = px \<and> qy = py + 1) \<or> (qx = px \<and> qy = py - 1)" by linarith
  then show ?thesis by (auto simp: neighbours4_def p q)
qed

lemma connected_in_stays:
  assumes "connected_in S p q" and "p \<in> A"
    and "\<And>c c'. c \<in> A \<Longrightarrow> c' \<in> S \<Longrightarrow> adjacent4 c c' \<Longrightarrow> c' \<in> A"
  shows "q \<in> A"
  using assms by (induction rule: connected_in.induct) auto

lemma closed_component_not_reachable:
  assumes cl: "closed_component m cs" and p: "p \<in> set cs" and q: "q \<notin> set cs"
  shows "\<not> reachable m p q"
proof
  assume "reachable m p q"
  then have c: "connected_in {c. excavated m c} p q" by (simp add: reachable_def)
  have "q \<in> set cs"
  proof (rule connected_in_stays[OF c])
    show "p \<in> set cs" using p by simp
  next
    fix c c' assume cc: "c \<in> set cs" "c' \<in> {c. excavated m c}" "adjacent4 c c'"
    from cl cc(1) have "list_all (\<lambda>c'. \<not> excavated m c' \<or> c' \<in> set cs) (neighbours4 c)"
      by (simp add: closed_component_def list_all_iff)
    with adjacent4_neighbours4[OF cc(3)] have "\<not> excavated m c' \<or> c' \<in> set cs"
      by (simp add: list_all_iff)
    with cc(2) show "c' \<in> set cs" by simp
  qed
  with q show False by simp
qed

subsection \<open>PerlinNoiseGenerator: any sample coordinate\<close>

lemma py_int_fraction: "- 1 \<le> x - real_of_int (py_int x) \<and> x - real_of_int (py_int x) \<le> 1"
  by (simp add: py_int_def) linarith

lemma lerp_band:
  fixes f a b L U :: real
  assumes f: "- 1 \<le> f" "f \<le> 1" and a: "L \<le> a" "a \<le> U" and b: "L \<le> b" "b \<le> U"
    and LU: "L \<le> 0" "0 \<le> U"
  shows "2 * L - U \<le> f * a + (1 - f) * b" and "f * a + (1 - f) * b \<le> 2 * U - L"
proof -
  have both: "2 * L - U \<le> f * a + (1 - f) * b \<and> f * a + (1 - f) * b \<le> 2 * U - L"
  proof (cases "0 \<le> f")
    case True
    have g: "0 \<le> 1 - f" using f by simp
    have "f * L \<le> f * a" "f * a \<le> f * U" using True a by (simp_all add: mult_left_mono)
    moreover have "(1 - f) * L \<le> (1 - f) * b" "(1 - f) * b \<le> (1 - f) * U"
      using g b by (simp_all add: mult_left_mono)
    moreover have "f * L + (1 - f) * L = L" "f * U + (1 - f) * U = U" by (simp_all add: algebra_simps)
    ultimately show ?thesis using LU by linarith
  next
    case False
    then have n: "f \<le> 0" by simp
    have g: "0 \<le> 1 - f" "1 - f \<le> 2" using f n by simp_all
    have "f * U \<le> f * a" "f * a \<le> f * L" using n a by (simp_all add: mult_left_mono_neg)
    moreover have "- 1 * U \<le> f * U" using f(1) LU(2) by (intro mult_right_mono) simp_all
    moreover have "f * L \<le> - 1 * L" using f(1) LU(1) by (intro mult_right_mono_neg) simp_all
    moreover have "(1 - f) * L \<le> (1 - f) * b" "(1 - f) * b \<le> (1 - f) * U"
      using g(1) b by (simp_all add: mult_left_mono)
    moreover have "2 * L \<le> (1 - f) * L" using g(2) LU(1) by (intro mult_right_mono_neg) simp_all
    moreover have "(1 - f) * U \<le> 2 * U" using g(2) LU(2) by (intro mult_right_mono) simp_all
    ultimately show ?thesis by linarith
  qed
  from both show "2 * L - U \<le> f * a + (1 - f) * b" by simp
  from both show "f * a + (1 - f) * b \<le> 2 * U - L" by simp
qed

lemma bilinear_band:
  fixes fx fy a b c d :: real
  assumes "- 1 \<le> fx" "fx \<le> 1" "- 1 \<le> fy" "fy \<le> 1"
    "0 \<le> a" "a \<le> 1" "0 \<le> b" "b \<le> 1" "0 \<le> c" "c \<le> 1" "0 \<le> d" "d \<le> 1"
  shows "- 4 \<le> fx * fy * a + fx * (1 - fy) * b + (1 - fx) * fy * c + (1 - fx) * (1 - fy) * d"
    and "fx * fy * a + fx * (1 - fy) * b + (1 - fx) * fy * c + (1 - fx) * (1 - fy) * d \<le> 5"
proof -
  define i1 where "i1 = fy * a + (1 - fy) * b"
  define i2 where "i2 = fy * c + (1 - fy) * d"
  have i1: "- 1 \<le> i1" "i1 \<le> 2"
    using lerp_band[of fy 0 a 1 b] assms by (simp_all add: i1_def)
  have i2: "- 1 \<le> i2" "i2 \<le> 2"
    using lerp_band[of fy 0 c 1 d] assms by (simp_all add: i2_def)
  have e: "fx * fy * a + fx * (1 - fy) * b + (1 - fx) * fy * c + (1 - fx) * (1 - fy) * d
      = fx * i1 + (1 - fx) * i2"
    by (simp add: i1_def i2_def algebra_simps)
  have "2 * (- 1) - 2 \<le> fx * i1 + (1 - fx) * i2" "fx * i1 + (1 - fx) * i2 \<le> 2 * 2 - (- 1)"
    using lerp_band[of fx "- 1" i1 2 i2] assms(1,2) i1 i2 by simp_all
  then show "- 4 \<le> fx * fy * a + fx * (1 - fy) * b + (1 - fx) * fy * c + (1 - fx) * (1 - fy) * d"
    and "fx * fy * a + fx * (1 - fy) * b + (1 - fx) * fy * c + (1 - fx) * (1 - fy) * d \<le> 5"
    unfolding e by simp_all
qed

lemma perlin_smooth_noise_band:
  assumes u: "unit_rows (noise_width self) (noise_height self) (noise_array self)"
    and W: "1 \<le> noise_width self" and H: "1 \<le> noise_height self"
  shows "\<exists>v. perlin_smooth_noise self x y = Inr v \<and> - 4 \<le> v \<and> v \<le> 5"
proof -
  define W' where "W' = noise_width self"
  define H' where "H' = noise_height self"
  define x1 where "x1 = (py_int x + W') mod W'"
  define y1 where "y1 = (py_int y + H') mod H'"
  define x2 where "x2 = (x1 + W' - 1) mod W'"
  define y2 where "y2 = (y1 + H' - 1) mod H'"
  define fx where "fx = x - real_of_int (py_int x)"
  define fy where "fy = y - real_of_int (py_int y)"
  have Wp: "0 < W'" and Hp: "0 < H'" using W H by (simp_all add: W'_def H'_def)
  have bx: "0 \<le> x1" "x1 < W'" "0 \<le> x2" "x2 < W'" using Wp by (simp_all add: x1_def x2_def)
  have by': "0 \<le> y1" "y1 < H'" "0 \<le> y2" "y2 < H'" using Hp by (simp_all add: y1_def y2_def)
  have f: "- 1 \<le> fx" "fx \<le> 1" "- 1 \<le> fy" "fy \<le> 1"
    using py_int_fraction[of x] py_int_fraction[of y] by (simp_all add: fx_def fy_def)
  note u' = u[folded W'_def H'_def]
  from unit_rows_get[OF u' by'(1,2) bx(1,2)] obtain n11 where
    n11: "bindE (py_getitem (noise_array self) y1) (\<lambda>row. py_getitem row x1) = Inr n11"
      "0 \<le> n11" "n11 \<le> 1" by blast
  from unit_rows_get[OF u' by'(3,4) bx(1,2)] obtain n21 where
    n21: "bindE (py_getitem (noise_array self) y2) (\<lambda>row. py_getitem row x1) = Inr n21"
      "0 \<le> n21" "n21 \<le> 1" by blast
  from unit_rows_get[OF u' by'(1,2) bx(3,4)] obtain n12 where
    n12: "bindE (py_getitem (noise_array self) y1) (\<lambda>row. py_getitem row x2) = Inr n12"
      "0 \<le> n12" "n12 \<le> 1" by blast
  from unit_rows_get[OF u' by'(3,4) bx(3,4)] obtain n22 where
    n22: "bindE (py_getitem (noise_array self) y2) (\<lambda>row. py_getitem row x2) = Inr n22"
      "0 \<le> n22" "n22 \<le> 1" by blast
  have m: "py_mod (py_int x + W') W' = Inr x1" "py_mod (py_int y + H') H' = Inr y1"
      "py_mod (x1 + W' - 1) W' = Inr x2" "py_mod (y1 + H' - 1) H' = Inr y2"
    using Wp Hp unfolding py_mod_def x1_def y1_def x2_def y2_def by simp_all
  have "perlin_smooth_noise self x y
      = Inr (0 + fx * fy * n11 + fx * (1 - fy) * n21 + (1 - fx) * fy * n12 + (1 - fx) * (1 - fy) * n22)"
    unfolding perlin_smooth_noise_def Let_def W'_def[symmetric] H'_def[symmetric]
      fx_def[symmetric] fy_def[symmetric]
    by (simp only: m bindE_Inr n11(1) n21(1) n12(1) n22(1))
  then have res: "perlin_smooth_noise self x y
      = Inr (fx * fy * n11 + fx * (1 - fy) * n21 + (1 - fx) * fy * n12 + (1 - fx) * (1 - fy) * n22)"
    by simp
  show ?thesis
    using res bilinear_band[OF f n11(2,3) n21(2,3) n12(2,3) n22(2,3)] by simp
qed

lemma perlin_turbulence_loop_band:
  assumes sm: "\<And>x y. \<exists>v. perlin_smooth_noise self x y = Inr v \<and> L \<le> v \<and> v \<le> U"
    and LU: "L \<le> 0" "0 \<le> U"
  shows "0 \<le> siz \<Longrightarrow>
         \<exists>r. perlin_turbulence_loop self x y siz noise_value = Inr r
              \<and> noise_value + 2 * siz * L \<le> r \<and> r \<le> noise_value + 2 * siz * U"
proof (induction "nat \<lfloor>siz\<rfloor>" arbitrary: siz noise_value rule: less_induct)
  case less
  show ?case
  proof (cases "1 \<le> siz")
    case False
    then have e: "perlin_turbulence_loop self x y siz noise_value = Inr noise_value"
      by (subst perlin_turbulence_loop.simps) simp
    have "2 * siz * L \<le> 0" using less.prems LU(1) by (simp add: mult_nonneg_nonpos)
    moreover have "0 \<le> 2 * siz * U" using less.prems LU(2) by simp
    ultimately show ?thesis using e by simp
  next
    case True
    from sm[of "x / siz" "y / siz"] obtain v where
      v: "perlin_smooth_noise self (x / siz) (y / siz) = Inr v" "L \<le> v" "v \<le> U" by blast
    have nz: "siz \<noteq> 0" using True by simp
    have step: "perlin_turbulence_loop self x y siz noise_value
        = perlin_turbulence_loop self x y (siz / 2) (noise_value + v * siz)"
      by (subst perlin_turbulence_loop.simps) (simp add: True py_div_def nz v(1))
    have h: "0 \<le> siz / 2" using True by simp
    from less.hyps[OF floor_half_less[OF True] h, of "noise_value + v * siz"] obtain r where
      r: "perlin_turbulence_loop self x y (siz / 2) (noise_value + v * siz) = Inr r"
        "noise_value + v * siz + 2 * (siz / 2) * L \<le> r"
        "r \<le> noise_value + v * siz + 2 * (siz / 2) * U"
      by blast
    have "L * siz \<le> v * siz" "v * siz \<le> U * siz"
      using v(2,3) True by (simp_all add: mult_right_mono)
    moreover have "2 * (siz / 2) * L = L * siz" "2 * (siz / 2) * U = U * siz" by simp_all
    moreover have "2 * siz * L = L * siz + L * siz" "2 * siz * U = U * siz + U * siz" by simp_all
    ultimately have "noise_value + 2 * siz * L \<le> r" "r \<le> noise_value + 2 * siz * U"
      using r(2,3) by linarith+
    then show ?thesis using step r(1) by simp
  qed
qed

lemma perlin_turbulence_band:
  assumes u: "unit_rows (noise_width self) (noise_height self) (noise_array self)"
    and W: "1 \<le> noise_width self" and H: "1 \<le> noise_height self"
    and o1: "1 \<le> octaves"
  shows "\<exists>v. perlin_totally_justified_turbulence_function self x y octaves = Inr v
           \<and> - 1024 \<le> v \<and> v \<le> 1280"
proof -
  have o0: "0 \<le> octaves" using o1 by simp
  have sm: "\<And>x y. \<exists>v. perlin_smooth_noise self x y = Inr v \<and> - 4 \<le> v \<and> v \<le> 5"
    using perlin_smooth_noise_band[OF u W H] by blast
  from perlin_turbulence_loop_band[where L = "- 4" and U = 5 and self = self
      and siz = octaves and noise_value = 0 and x = x and y = y, OF sm _ _ o0]
  obtain r where
    r: "perlin_turbulence_loop self x y octaves 0 = Inr r"
      "0 + 2 * octaves * (- 4) \<le> r" "r \<le> 0 + 2 * octaves * 5"
    by auto
  have nz: "octaves \<noteq> 0" and pos: "0 < octaves" using o1 by simp_all
  define q where "q = r / octaves"
  have res: "perlin_totally_justified_turbulence_function self x y octaves = Inr (q * 128)"
    by (simp add: perlin_totally_justified_turbulence_function_def r(1) py_div_def nz q_def)
  have "- 8 * octaves \<le> r" "r \<le> 10 * octaves" using r(2,3) by simp_all
  then have "- 8 \<le> q" "q \<le> 10"
    unfolding q_def using pos by (simp_all add: pos_le_divide_eq pos_divide_le_eq)
  then have "- 1024 \<le> q * 128" "q * 128 \<le> 1280" by simp_all
  then show ?thesis using res by blast
qed

lemma py_int_wide_band:
  "- 1024 \<le> v \<Longrightarrow> v \<le> 1280 \<Longrightarrow> - 1024 \<le> py_int v \<and> py_int v \<le> 1280"
  by (simp add: py_int_def)

lemma perlin_result_row_wide_band:
  assumes u: "unit_rows (noise_width self) (noise_height self) (noise_array self)"
    and H: "1 \<le> noise_height self" and o1: "1 \<le> octaves"
  shows "\<exists>row. perlin_result_row self frequency octaves each_y = Inr row
           \<and> length row = nat (noise_width self) \<and> (\<forall>v\<in>set row. - 1024 \<le> v \<and> v \<le> 1280)"
proof -
  have step: "\<exists>v. bindE (perlin_totally_justified_turbulence_function self
                       (real_of_int each_x * frequency) (real_of_int each_y * frequency) octaves)
                     (\<lambda>v. Inr (py_int v)) = Inr v \<and> (- 1024 \<le> v \<and> v \<le> 1280)"
    if "each_x \<in> set (py_range 0 (noise_width self))" for each_x
  proof -
    from that have ex: "1 \<le> noise_width self" by auto
    from perlin_turbulence_band[OF u ex H o1] obtain v where
      "perlin_totally_justified_turbulence_function self
         (real_of_int each_x * frequency) (real_of_int each_y * frequency) octaves = Inr v"
      "- 1024 \<le> v" "v \<le> 1280" by blast
    then show ?thesis using py_int_wide_band[of v] by simp
  qed
  from foldE_collect_total[where Q = "\<lambda>v. - 1024 \<le> v \<and> v \<le> 1280" and acc = "[]"
      and xs = "py_range 0 (noise_width self)"
      and h = "\<lambda>each_x. bindE (perlin_totally_justified_turbulence_function self
                       (real_of_int each_x * frequency) (real_of_int each_y * frequency) octaves)
                     (\<lambda>v. Inr (py_int v))", OF step]
  show ?thesis unfolding perlin_result_row_collect by simp
qed

lemma perlin_generate_noise_wide_band:
  assumes "1 \<le> octaves"
  shows "\<exists>self' result g'.
           perlin_generate_noise self width height frequency octaves g = Inr (self', result, g')
         \<and> (\<forall>row\<in>set result. \<forall>v\<in>set row. - 1024 \<le> v \<and> v \<le> 1280)"
proof -
  from perlin_noise_rows_ok[of width height g] obtain rows g' where
    r: "perlin_noise_rows width height g = Inr (rows, g')" "unit_rows width height rows" by blast
  define self1 where "self1 = \<lparr> noise_array = rows, noise_width = width, noise_height = height \<rparr>"
  have u: "unit_rows (noise_width self1) (noise_height self1) (noise_array self1)"
    using r(2) by (simp add: self1_def)
  have step: "\<exists>row. perlin_result_row self1 frequency octaves each_y = Inr row
       \<and> (\<forall>v\<in>set row. - 1024 \<le> v \<and> v \<le> 1280)"
    if "each_y \<in> set (py_range 0 (noise_height self1))" for each_y
  proof -
    from that have "1 \<le> noise_height self1" by auto
    from perlin_result_row_wide_band[OF u this assms, of frequency each_y] show ?thesis by blast
  qed
  from foldE_collect_total[where Q = "\<lambda>row. \<forall>v\<in>set row. - 1024 \<le> v \<and> v \<le> (1280 :: int)"
      and acc = "[]" and h = "perlin_result_row self1 frequency octaves"
      and xs = "py_range 0 (noise_height self1)", OF step]
  obtain result where
    res: "foldE (\<lambda>each_y result.
                          bindE (perlin_result_row self1 frequency octaves each_y)
                            (\<lambda>row. Inr (result @ [row])))
                       (py_range 0 (noise_height self1)) [] = Inr result"
      "\<forall>row\<in>set result. \<forall>v\<in>set row. - 1024 \<le> v \<and> v \<le> 1280"
    by auto
  have hh: "noise_height self1 = height" by (simp add: self1_def)
  have "perlin_generate_noise self width height frequency octaves g = Inr (self1, result, g')"
    using r(1) res(1) by (simp add: perlin_generate_noise_def self1_def[symmetric] Let_def hh)
  then show ?thesis using res(2) by blast
qed

subsection \<open>SimplexNoiseGenerator: the shuffle\<close>













lemma simplex_reshuffled_seed [simp]:
  "noise_array_seed (simplex_reshuffled self p) = noise_array_seed self"
  by (simp add: simplex_reshuffled_def)







subsection \<open>PlasmaFractalGenerator: the two smallest grids\<close>







subsection \<open>Writes keep the shape of a grid\<close>

lemma has_shape_update:
  assumes "has_shape m H W" "i < length m"
  shows "has_shape (m[i := (m ! i)[j := v]]) H W"
  using assms by (auto simp: has_shape_def list_all_length nth_list_update)

lemma py_index_less: "py_index xs i = Inr k \<Longrightarrow> k < length xs"
  by (auto simp: py_index_def Let_def split: if_splits)

lemma grid_set_shape:
  assumes "grid_set m r c v = Inr m'" "has_shape m H W"
  shows "has_shape m' H W"
proof -
  from assms(1) obtain i j where i: "py_index m r = Inr i"
    and m': "m' = m[i := (m ! i)[j := v]]"
    by (auto simp: grid_set_def bindE_eq_Inr)
  from has_shape_update[OF assms(2) py_index_less[OF i]] show ?thesis by (simp add: m')
qed

lemma grid_incr_shape:
  assumes "grid_incr m r c = Inr m'" "has_shape m H W"
  shows "has_shape m' H W"
  using assms by (auto simp: grid_incr_def bindE_eq_Inr intro: grid_set_shape)

lemma grid_incr_if_zero_shape:
  assumes "grid_incr_if_zero m r c = Inr m'" "has_shape m H W"
  shows "has_shape m' H W"
  using assms
  by (auto simp: grid_incr_if_zero_def bindE_eq_Inr split: if_splits intro: grid_incr_shape)

lemma foldE_shape:
  assumes "foldE f xs m = Inr m'" "has_shape m H W"
    and "\<And>x a b. f x a = Inr b \<Longrightarrow> has_shape a H W \<Longrightarrow> has_shape b H W"
  shows "has_shape m' H W"
  using assms(1,2)
proof (induction xs arbitrary: m)
  case Nil
  then show ?case by simp
next
  case (Cons x xs)
  from Cons.prems(1) obtain m1 where m1: "f x m = Inr m1" "foldE f xs m1 = Inr m'"
    by (auto split: sum.splits)
  from assms(3)[OF m1(1) Cons.prems(2)] Cons.IH[OF m1(2)] show ?case by simp
qed

lemma blank_rows_shape:
  assumes "0 \<le> w" "0 \<le> h"
  shows "has_shape (map (\<lambda>each_row. map (\<lambda>each_column. v) (py_range 0 w)) (py_range 0 h)) h w"
  using assms by (simp add: has_shape_def list_all_iff)

lemma blank_map_shape: "0 \<le> w \<Longrightarrow> 0 \<le> h \<Longrightarrow> has_shape (blank_map w h) h w"
  unfolding blank_map_def by (rule blank_rows_shape)

subsection \<open>The shape of the grid of every generator\<close>

lemma plasma_write_cell_shape:
  assumes "plasma_write_cell each_cell a = Inr b" "has_shape a H W"
  shows "has_shape b H W"
proof -
  obtain cx cy cz where c: "each_cell = (cx, cy, cz)" by (cases each_cell) auto
  from assms(1) obtain i j where i: "py_index a (py_int cy) = Inr i"
    and b: "b = a[i := (a ! i)[j := cz]]"
    by (auto simp: plasma_write_cell_def c bindE_eq_Inr)
  from has_shape_update[OF assms(2) py_index_less[OF i]] show ?thesis by (simp add: b)
qed

lemma plasma_generate_noise_shape:
  assumes r: "plasma_generate_noise recursion_limit self x y (Some w) (Some h)
                uleft uright lleft lright g = Inr (self', the_grid, g')"
    and w: "0 \<le> w" and h: "0 \<le> h"
  shows "has_shape the_grid h w"
proof -
  from r obtain saved where
    f: "foldE plasma_write_cell saved
          (map (\<lambda>each_array_height_index. map (\<lambda>each_array_width_index. - 1) (py_range 0 w))
               (py_range 0 h)) = Inr the_grid"
    by (auto simp: plasma_generate_noise_def Let_def option_or_def bindE_eq_Inr)
  show ?thesis
    by (rule foldE_shape[OF f blank_rows_shape[OF w h]]) (rule plasma_write_cell_shape)
qed

lemma perlin_generate_noise_has_shape:
  assumes "perlin_generate_noise self w h frequency octaves g = Inr (self', the_grid, g')"
    and "0 \<le> w" "0 \<le> h"
  shows "has_shape the_grid h w"
  using perlin_generate_noise_shape[OF assms(1)] assms(2,3)
  by (simp add: has_shape_def list_all_iff)

lemma foldE_collect_length:
  assumes "foldE (\<lambda>x acc. bindE (f x) (\<lambda>v. Inr (acc @ [v]))) xs [] = Inr res"
  shows "length res = length xs" and "\<And>v. v \<in> set res \<Longrightarrow> \<exists>x\<in>set xs. f x = Inr v"
proof -
  from assms[unfolded foldE_collect] obtain vs where
    vs: "res = [] @ vs" "list_all2 (\<lambda>x v. f x = Inr v) xs vs" by blast
  show "length res = length xs" using list_all2_lengthD[OF vs(2)] vs(1) by simp
  fix v assume "v \<in> set res"
  then obtain i where i: "i < length vs" "v = vs ! i" using vs(1) by (auto simp: in_set_conv_nth)
  from list_all2_nthD2[OF vs(2) i(1)] have "f (xs ! i) = Inr v" using i(2) by simp
  moreover have "xs ! i \<in> set xs" using i(1) list_all2_lengthD[OF vs(2)] by simp
  ultimately show "\<exists>x\<in>set xs. f x = Inr v" by blast
qed

lemma simplex_generate_noise_shape:
  assumes r: "snd (simplex_generate_noise self w h scale octaves persistence g) = Inr (the_grid, g')"
    and w: "0 \<le> w" and h: "0 \<le> h"
  shows "has_shape the_grid h w"
proof -
  from r obtain self1 g1 where
    f: "foldE (\<lambda>each_y array_to_be_returned.
                 bindE (simplex_noise_row self1 w scale octaves persistence each_y)
                   (\<lambda>new_row. Inr (array_to_be_returned @ [new_row])))
              (py_range 0 h) [] = Inr the_grid"
    by (auto simp: simplex_generate_noise_def bindE_eq_Inr split: sum.splits)
  note c = foldE_collect_length[OF f]
  have "length row = nat w" if "row \<in> set the_grid" for row
  proof -
    from c(2)[OF that] obtain each_y where
      "simplex_noise_row self1 w scale octaves persistence each_y = Inr row" by blast
    from foldE_collect_length(1)[OF this[unfolded simplex_noise_row_def]] show ?thesis by simp
  qed
  then show ?thesis using c(1) w h by (simp add: has_shape_def list_all_iff)
qed

lemma rf_write_room_shape:
  assumes "rf_write_room r c w h m = Inr m'" "has_shape m H W"
  shows "has_shape m' H W"
  using assms unfolding rf_write_room_def
  by (elim foldE_shape) (auto intro: grid_incr_shape)

lemma rf_tile_shape:
  assumes "rf_tile self r c (m, g) = Inr (m', g')" "has_shape m H W"
  shows "has_shape m' H W"
  using assms
  by (auto simp: rf_tile_def bindE_eq_Inr split: if_splits intro: rf_write_room_shape)

lemma foldE_shape_state:
  assumes "foldE f xs (m, g) = Inr (m', g')" "has_shape m H W"
    and "\<And>x a ga b gb. f x (a, ga) = Inr (b, gb) \<Longrightarrow> has_shape a H W \<Longrightarrow> has_shape b H W"
  shows "has_shape m' H W"
  using assms(1,2)
proof (induction xs arbitrary: m g)
  case Nil
  then show ?case by simp
next
  case (Cons x xs)
  from Cons.prems(1) obtain m1 g1 where m1: "f x (m, g) = Inr (m1, g1)"
      "foldE f xs (m1, g1) = Inr (m', g')"
    by (auto split: sum.splits)
  from assms(3)[OF m1(1) Cons.prems(2)] Cons.IH[OF m1(2)] show ?case by simp
qed

lemma rf_row_shape:
  assumes "rf_row self r (m, g) = Inr (m', g')" "has_shape m H W"
  shows "has_shape m' H W"
proof -
  from assms(1) obtain this_row :: "int list" where
    "foldE (rf_tile self r) (py_range 1 (int (length this_row) - 1)) (m, g) = Inr (m', g')"
    by (auto simp: rf_row_def bindE_eq_Inr)
  then show ?thesis
    by (rule foldE_shape_state[OF _ assms(2)]) (rule rf_tile_shape)
qed

lemma rf_generate_noise_shape:
  assumes r: "rf_generate_noise self0 (Some w) (Some h) rmax rmin g = Inr (self', the_grid, g')"
    and w: "0 \<le> w" and h: "0 \<le> h"
  shows "has_shape the_grid h w"
proof -
  define self where "self = rf_set_parameters self0 (Some w) (Some h) rmax rmin"
  have wh: "rf_map_width self = w" "rf_map_height self = h"
    by (simp_all add: self_def rf_set_parameters_def)
  from r obtain n where
    f: "foldE (rf_row self) (py_range 1 n) (blank_map w h, g) = Inr (the_grid, g')"
    by (auto simp: rf_generate_noise_def Let_def self_def[symmetric] wh bindE_eq_Inr)
  show ?thesis
    by (rule foldE_shape_state[OF f blank_map_shape[OF w h]]) (rule rf_row_shape)
qed

section \<open>The claims\<close>

text \<open>
  Claim C7. Both intersection tests return True for the cross configuration
  \<open>[1,1,5,5]\<close> and \<open>[3,0,1,10]\<close>, in either argument order.
\<close>

theorem cross_configuration_detected:
  "check_these_two_rectangles_for_intersection (1, 1, 5, 5) (3, 0, 1, 10)
   \<and> check_these_two_rectangles_for_intersection (3, 0, 1, 10) (1, 1, 5, 5)
   \<and> mk2_check_these_two_rectangles_for_intersection (1, 1, 5, 5) (3, 0, 1, 10)
   \<and> mk2_check_these_two_rectangles_for_intersection (3, 0, 1, 10) (1, 1, 5, 5)"
  by (simp add: check_these_two_rectangles_for_intersection_def
        mk2_check_these_two_rectangles_for_intersection_def)

text \<open>
  Claim C2 (the code departs from it). The parameters below admit one room, and
  \<open>room_min_count\<close> is 1; the call of \<open>DungeonMapGenerator.generate_noise\<close> ends in
  TypeError, raised by \<open>self.return_the_center_of_this_rectangle()\<close> in the first pass of
  the loop over the rooms, instead of returning a grid.
\<close>

theorem dungeon_generate_noise_raises:
  "dungeon_generate_noise (dungeon_init 40 40 10 4 30 5)
     (Some 12) (Some 12) (Some 3) (Some 2) (Some 1) (Some 1) (draws [])
   = Some (Inl TypeError)"
  by code_simp

text \<open>
  Claim C4 (the code departs from it). With \<open>room_min_count = room_max_count = 1\<close> exactly
  one room is accepted; the first-pass loop still runs for it, finds no other
  centerpoint, and subscripts \<open>which_centerpoint_is_closest = None\<close>: the call ends in
  TypeError instead of returning a grid with the single room.
\<close>

theorem mk2_single_room_raises:
  "map_option (map_sum id fst)
     (mk2_place_rooms (mk2_set_parameters (mk2_init 40 40 10 4 30 5)
        (Some 12) (Some 12) (Some 3) (Some 2) (Some 1) (Some 1)) [] (draws []))
     = Some (Inr [(1, 1, 2, 2)])
   \<and> mk2_generate_noise (mk2_init 40 40 10 4 30 5)
       (Some 12) (Some 12) (Some 3) (Some 2) (Some 1) (Some 1) (draws [])
     = Some (Inl TypeError)"
  by code_simp

text \<open>
  Claim C10. Every cell of a grid that \<open>MarkIIDungeonMapGenerator.generate_noise\<close> returns
  is 0 or 1: the accepted rooms share no cell, so the additive room writes leave 1 in each
  room cell, and the corridor writes change only cells that hold 0.
\<close>

theorem mk2_cells_are_0_or_1:
  assumes "mk2_generate_noise self0 supplied_map_width supplied_map_height rmax rmin cmax cmin g
             = Some (Inr the_dungeon_map)"
  shows "\<forall>row\<in>set the_dungeon_map. \<forall>v\<in>set row. v = 0 \<or> v = 1"
proof -
  define self where "self = mk2_set_parameters self0 supplied_map_width supplied_map_height rmax rmin cmax cmin"
  from assms obtain rooms g' where
    pl: "mk2_place_rooms self [] g = Some (Inr (rooms, g'))" and
    ld: "mk2_link_and_draw self rooms g' = Inr the_dungeon_map"
    by (auto simp: mk2_generate_noise_def Let_def self_def split: option.splits sum.splits)
  from ld obtain corridors where ra: "mk2_rasterize self rooms corridors = Inr the_dungeon_map"
    by (auto simp: mk2_link_and_draw_def bindE_eq_Inr)
  have "mk2_rooms_placed self rooms"
    by (rule mk2_place_rooms_placed(1)[OF pl mk2_rooms_placed_Nil])
  then have "entries01 the_dungeon_map" using ra by (rule mk2_rasterize_entries01)
  then show ?thesis by (simp add: entries01_def list_all_iff)
qed

theorem mk2_cells_are_0_or_1_witness:
  "mk2_generate_noise (mk2_init 40 40 10 4 30 5) (Some 9) (Some 9) (Some 3) (Some 2) (Some 3) (Some 2)
      (draws [0, 0, 0, 0, 0, 0, 3, 3])
     = Some (Inr [[0, 0, 0, 0, 0, 0, 0, 0], [0, 1, 1, 0, 0, 0, 0, 0],
                  [0, 1, 1, 1, 1, 1, 0, 0], [0, 0, 0, 0, 0, 1, 0, 0],
                  [0, 0, 0, 0, 1, 1, 0, 0], [0, 0, 0, 0, 1, 1, 0, 0],
                  [0, 0, 0, 0, 0, 0, 0, 0], [0, 0, 0, 0, 0, 0, 0, 0::int]])
   \<and> list_all (list_all (\<lambda>v. v = 0 \<or> v = 1))
         [[0, 0, 0, 0, 0, 0, 0, 0], [0, 1, 1, 0, 0, 0, 0, 0],
          [0, 1, 1, 1, 1, 1, 0, 0], [0, 0, 0, 0, 0, 1, 0, 0],
          [0, 0, 0, 0, 1, 1, 0, 0], [0, 0, 0, 0, 1, 1, 0, 0],
          [0, 0, 0, 0, 0, 0, 0, 0], [0, 0, 0, 0, 0, 0, 0, 0::int]]"
proof -
  have h: "mk2_generate_noise (mk2_init 40 40 10 4 30 5) (Some 9) (Some 9) (Some 3) (Some 2) (Some 3) (Some 2)
      (draws [0, 0, 0, 0, 0, 0, 3, 3])
     = Some (Inr [[0, 0, 0, 0, 0, 0, 0, 0], [0, 1, 1, 0, 0, 0, 0, 0],
                  [0, 1, 1, 1, 1, 1, 0, 0], [0, 0, 0, 0, 0, 1, 0, 0],
                  [0, 0, 0, 0, 1, 1, 0, 0], [0, 0, 0, 0, 1, 1, 0, 0],
                  [0, 0, 0, 0, 0, 0, 0, 0], [0, 0, 0, 0, 0, 0, 0, 0::int]])"
    by code_simp
  have "list_all (list_all (\<lambda>v. v = 0 \<or> v = 1))
         [[0, 0, 0, 0, 0, 0, 0, 0], [0, 1, 1, 0, 0, 0, 0, 0],
          [0, 1, 1, 1, 1, 1, 0, 0], [0, 0, 0, 0, 0, 1, 0, 0],
          [0, 0, 0, 0, 1, 1, 0, 0], [0, 0, 0, 0, 1, 1, 0, 0],
          [0, 0, 0, 0, 0, 0, 0, 0], [0, 0, 0, 0, 0, 0, 0, 0::int]]"
    unfolding list_all_iff by (rule mk2_cells_are_0_or_1[OF h])
  with h show ?thesis by (rule conjI)
qed

text \<open>
  Claim C1, as stated, fails when a room size can be negative.
  \<open>generate_noise(12, 12, room_max_size=1, room_min_size=-4, room_max_count=3,
  room_min_count=2)\<close> with the draws below accepts the rooms \<open>[1,1,1,1]\<close>, \<open>[1,4,-4,0]\<close> and
  \<open>[1,7,1,1]\<close>; the centerpoint of the second is \<open>(-1, 4)\<close>, the corridors to it start at
  column \<open>-1\<close>, and the writes at a negative index land in column 10. In the returned grid
  the cell \<open>(1,1)\<close> of the first room and the cell \<open>(1,7)\<close> of the third are excavated and
  not connected.
\<close>

theorem mk2_negative_room_size_disconnected:
  "mk2_accepted_rooms
       (mk2_set_parameters (mk2_init 40 40 10 4 30 5)
          (Some 12) (Some 12) (Some 1) (Some (- 4)) (Some 3) (Some 2))
       (draws [5, 5, 0, 0, 0, 4, 0, 3, 5, 5, 0, 6])
     = Some (Inr [(1, 1, 1, 1), (1, 4, - 4, 0), (1, 7, 1, 1)])
   \<and> mk2_generate_noise (mk2_init 40 40 10 4 30 5)
          (Some 12) (Some 12) (Some 1) (Some (- 4)) (Some 3) (Some 2)
          (draws [5, 5, 0, 0, 0, 4, 0, 3, 5, 5, 0, 6])
     = Some (Inr [[0, 0, 0, 0, 0, 0, 0, 0, 0, 0, 0],
                  [1, 1, 0, 0, 0, 0, 0, 0, 0, 0, 1],
                  [0, 0, 0, 0, 0, 0, 0, 0, 0, 0, 1],
                  [0, 0, 0, 0, 0, 0, 0, 0, 0, 0, 1],
                  [0, 0, 0, 0, 0, 0, 0, 0, 0, 0, 1],
                  [0, 0, 0, 0, 0, 0, 0, 0, 0, 0, 1],
                  [0, 0, 0, 0, 0, 0, 0, 0, 0, 0, 1],
                  [1, 1, 0, 0, 0, 0, 0, 0, 0, 0, 1],
                  [0, 0, 0, 0, 0, 0, 0, 0, 0, 0, 0],
                  [0, 0, 0, 0, 0, 0, 0, 0, 0, 0, 0],
                  [0, 0, 0, 0, 0, 0, 0, 0, 0, 0, 0]])
   \<and> (1, 1) \<in> rect_cells (1, 1, 1, 1)
   \<and> (1, 7) \<in> rect_cells (1, 7, 1, 1)
   \<and> \<not> reachable [[0, 0, 0, 0, 0, 0, 0, 0, 0, 0, 0],
                  [1, 1, 0, 0, 0, 0, 0, 0, 0, 0, 1],
                  [0, 0, 0, 0, 0, 0, 0, 0, 0, 0, 1],
                  [0, 0, 0, 0, 0, 0, 0, 0, 0, 0, 1],
                  [0, 0, 0, 0, 0, 0, 0, 0, 0, 0, 1],
                  [0, 0, 0, 0, 0, 0, 0, 0, 0, 0, 1],
                  [0, 0, 0, 0, 0, 0, 0, 0, 0, 0, 1],
                  [1, 1, 0, 0, 0, 0, 0, 0, 0, 0, 1],
                  [0, 0, 0, 0, 0, 0, 0, 0, 0, 0, 0],
                  [0, 0, 0, 0, 0, 0, 0, 0, 0, 0, 0],
                  [0, 0, 0, 0, 0, 0, 0, 0, 0, 0, 0]] (1, 1) (1, 7)"
proof -
  have a: "mk2_accepted_rooms
       (mk2_set_parameters (mk2_init 40 40 10 4 30 5)
          (Some 12) (Some 12) (Some 1) (Some (- 4)) (Some 3) (Some 2))
       (draws [5, 5, 0, 0, 0, 4, 0, 3, 5, 5, 0, 6])
     = Some (Inr [(1, 1, 1, 1), (1, 4, - 4, 0), (1, 7, 1, 1)])"
    by code_simp
  have b: "mk2_generate_noise (mk2_init 40 40 10 4 30 5)
          (Some 12) (Some 12) (Some 1) (Some (- 4)) (Some 3) (Some 2)
          (draws [5, 5, 0, 0, 0, 4, 0, 3, 5, 5, 0, 6])
     = Some (Inr [[0, 0, 0, 0, 0, 0, 0, 0, 0, 0, 0],
                  [1, 1, 0, 0, 0, 0, 0, 0, 0, 0, 1],
                  [0, 0, 0, 0, 0, 0, 0, 0, 0, 0, 1],
                  [0, 0, 0, 0, 0, 0, 0, 0, 0, 0, 1],
                  [0, 0, 0, 0, 0, 0, 0, 0, 0, 0, 1],
                  [0, 0, 0, 0, 0, 0, 0, 0, 0, 0, 1],
                  [0, 0, 0, 0, 0, 0, 0, 0, 0, 0, 1],
                  [1, 1, 0, 0, 0, 0, 0, 0, 0, 0, 1],
                  [0, 0, 0, 0, 0, 0, 0, 0, 0, 0, 0],
                  [0, 0, 0, 0, 0, 0, 0, 0, 0, 0, 0],
                  [0, 0, 0, 0, 0, 0, 0, 0, 0, 0, 0]])"
    by code_simp
  have c: "(1, 1) \<in> rect_cells (1, 1, 1, 1)" "(1, 7) \<in> rect_cells (1, 7, 1, 1)"
    by (simp_all add: rect_cells_def)
  have cl: "closed_component [[0, 0, 0, 0, 0, 0, 0, 0, 0, 0, 0],
                  [1, 1, 0, 0, 0, 0, 0, 0, 0, 0, 1],
                  [0, 0, 0, 0, 0, 0, 0, 0, 0, 0, 1],
                  [0, 0, 0, 0, 0, 0, 0, 0, 0, 0, 1],
                  [0, 0, 0, 0, 0, 0, 0, 0, 0, 0, 1],
                  [0, 0, 0, 0, 0, 0, 0, 0, 0, 0, 1],
                  [0, 0, 0, 0, 0, 0, 0, 0, 0, 0, 1],
                  [1, 1, 0, 0, 0, 0, 0, 0, 0, 0, 1],
                  [0, 0, 0, 0, 0, 0, 0, 0, 0, 0, 0],
                  [0, 0, 0, 0, 0, 0, 0, 0, 0, 0, 0],
                  [0, 0, 0, 0, 0, 0, 0, 0, 0, 0, 0]] [(0, 1), (1, 1)]"
    by code_simp
  have m1: "(1 :: int, 1 :: int) \<in> set [(0, 1), (1, 1)]" by simp
  have m2: "(1 :: int, 7 :: int) \<notin> set [(0, 1), (1, 1)]" by simp
  note d = closed_component_not_reachable[OF cl m1 m2]
  from a b c d show ?thesis by (intro conjI)
qed

text \<open>
  Claim C1, amended. When \<open>room_min_size\<close> is not negative and the placement loop of
  \<open>MarkIIDungeonMapGenerator.generate_noise\<close> accepts at least two rooms, the call returns
  a grid, and in it every cell of every accepted room is reachable from every cell of
  every accepted room through 4-adjacent cells of value at least 1.
\<close>

theorem mk2_full_connectivity:
  assumes "mk2_accepted_rooms
             (mk2_set_parameters self0 supplied_map_width supplied_map_height rmax rmin cmax cmin) g
             = Some (Inr rooms)"
    and "2 \<le> length rooms"
    and "0 \<le> room_min_size
             (mk2_set_parameters self0 supplied_map_width supplied_map_height rmax rmin cmax cmin)"
  shows "\<exists>the_dungeon_map.
           mk2_generate_noise self0 supplied_map_width supplied_map_height rmax rmin cmax cmin g
             = Some (Inr the_dungeon_map)
         \<and> (\<forall>r1\<in>set rooms. \<forall>r2\<in>set rooms. \<forall>c1\<in>rect_cells r1. \<forall>c2\<in>rect_cells r2.
               reachable the_dungeon_map c1 c2)"
proof -
  define self where "self = mk2_set_parameters self0 supplied_map_width supplied_map_height rmax rmin cmax cmin"
  from assms(1) obtain z where z: "mk2_place_rooms self [] g = Some z"
      and zz: "map_sum id fst z = Inr rooms"
    by (auto simp: mk2_accepted_rooms_def self_def)
  from zz obtain g' where "z = Inr (rooms, g')" by (cases z) auto
  with z have pl: "mk2_place_rooms self [] g = Some (Inr (rooms, g'))" by simp
  have placed: "mk2_rooms_placed self rooms"
    by (rule mk2_place_rooms_placed(1)[OF pl mk2_rooms_placed_Nil])
  from mk2_link_and_draw_connected[OF placed assms(3)[folded self_def] assms(2), of g']
  obtain m where "mk2_link_and_draw self rooms g' = Inr m"
    and "\<forall>r1\<in>set rooms. \<forall>r2\<in>set rooms. \<forall>c1\<in>rect_cells r1. \<forall>c2\<in>rect_cells r2. reachable m c1 c2"
    by blast
  moreover have "mk2_generate_noise self0 supplied_map_width supplied_map_height rmax rmin cmax cmin g
      = Some (mk2_link_and_draw self rooms g')"
    using pl by (simp add: mk2_generate_noise_def Let_def self_def[symmetric])
  ultimately show ?thesis by auto
qed

theorem mk2_full_connectivity_witness:
  "mk2_accepted_rooms
       (mk2_set_parameters (mk2_init 40 40 10 4 30 5) (Some 9) (Some 9) (Some 3) (Some 2) (Some 3) (Some 2))
       (draws [0,0,0,0,1,0,3,3,0,0,0,0,1])
     = Some (Inr [(1,1,2,2),(4,4,3,2)])
   \<and> 2 \<le> length [(1,1,2,2),(4,4,3,2) :: rectangle]
   \<and> 0 \<le> room_min_size
       (mk2_set_parameters (mk2_init 40 40 10 4 30 5) (Some 9) (Some 9) (Some 3) (Some 2) (Some 3) (Some 2))
   \<and> mk2_generate_noise (mk2_init 40 40 10 4 30 5) (Some 9) (Some 9) (Some 3) (Some 2) (Some 3) (Some 2)
       (draws [0,0,0,0,1,0,3,3,0,0,0,0,1])
     = Some (Inr [[0,0,0,0,0,0,0,0],
                  [0,1,1,0,0,0,0,0],
                  [0,1,1,0,0,0,0,0],
                  [0,0,1,0,0,0,0,0],
                  [0,0,1,0,1,1,1,0],
                  [0,0,1,1,1,1,1,0],
                  [0,0,0,0,0,0,0,0],
                  [0,0,0,0,0,0,0,0]])
   \<and> reachable [[0,0,0,0,0,0,0,0],
                  [0,1,1,0,0,0,0,0],
                  [0,1,1,0,0,0,0,0],
                  [0,0,1,0,0,0,0,0],
                  [0,0,1,0,1,1,1,0],
                  [0,0,1,1,1,1,1,0],
                  [0,0,0,0,0,0,0,0],
                  [0,0,0,0,0,0,0,0]] (1,1) (6,5)"
proof -
  have h1: "mk2_accepted_rooms
       (mk2_set_parameters (mk2_init 40 40 10 4 30 5) (Some 9) (Some 9) (Some 3) (Some 2) (Some 3) (Some 2))
       (draws [0,0,0,0,1,0,3,3,0,0,0,0,1])
     = Some (Inr [(1,1,2,2),(4,4,3,2)])"
    by code_simp
  have h2: "2 \<le> length [(1,1,2,2),(4,4,3,2) :: rectangle]" by simp
  have h3: "0 \<le> room_min_size
       (mk2_set_parameters (mk2_init 40 40 10 4 30 5) (Some 9) (Some 9) (Some 3) (Some 2) (Some 3) (Some 2))"
    by code_simp
  have h4: "mk2_generate_noise (mk2_init 40 40 10 4 30 5) (Some 9) (Some 9) (Some 3) (Some 2) (Some 3) (Some 2)
       (draws [0,0,0,0,1,0,3,3,0,0,0,0,1])
     = Some (Inr [[0,0,0,0,0,0,0,0],
                  [0,1,1,0,0,0,0,0],
                  [0,1,1,0,0,0,0,0],
                  [0,0,1,0,0,0,0,0],
                  [0,0,1,0,1,1,1,0],
                  [0,0,1,1,1,1,1,0],
                  [0,0,0,0,0,0,0,0],
                  [0,0,0,0,0,0,0,0]])"
    by code_simp
  have c1: "(1,1) \<in> rect_cells (1,1,2,2)" by (simp add: rect_cells_def)
  have c2: "(6,5) \<in> rect_cells (4,4,3,2)" by (simp add: rect_cells_def)
  from mk2_full_connectivity[OF h1 h2 h3] obtain m where
    m: "mk2_generate_noise (mk2_init 40 40 10 4 30 5) (Some 9) (Some 9) (Some 3) (Some 2) (Some 3) (Some 2)
       (draws [0,0,0,0,1,0,3,3,0,0,0,0,1]) = Some (Inr m)"
    and r: "\<forall>r1\<in>set [(1,1,2,2),(4,4,3,2)]. \<forall>r2\<in>set [(1,1,2,2),(4,4,3,2)].
             \<forall>c1\<in>rect_cells r1. \<forall>c2\<in>rect_cells r2. reachable m c1 c2"
    by blast
  from m h4 have meq: "m = [[0,0,0,0,0,0,0,0],
                  [0,1,1,0,0,0,0,0],
                  [0,1,1,0,0,0,0,0],
                  [0,0,1,0,0,0,0,0],
                  [0,0,1,0,1,1,1,0],
                  [0,0,1,1,1,1,1,0],
                  [0,0,0,0,0,0,0,0],
                  [0,0,0,0,0,0,0,0]]" by simp
  have "reachable m (1,1) (6,5)"
    using r c1 c2 by (meson list.set_intros)
  then show ?thesis using h1 h2 h3 h4 unfolding meq by (intro conjI)
qed

text \<open>
  Claim C9, as stated, fails for a negative frequency in its bound \<open>[0, 256]\<close>. With \<open>frequency = -0.5\<close>,
  \<open>octaves = 1\<close> and the raw noise \<open>[[1.0, 0.0], [0.0, 1.0]]\<close> (draws 1000, 0, 0, 1000),
  the cell at row 1, column 1 is sampled at \<open>(-0.5, -0.5)\<close>: \<open>int(-0.5)\<close> is 0, the
  fractional elements are \<open>-0.5\<close>, the four weights are 0.25, -0.75, -0.75 and 2.25, and
  the cell is \<open>int(2.5 * 128) = 320\<close>, outside \<open>[0, 256]\<close>.
\<close>

theorem perlin_negative_frequency_leaves_band:
  "map_sum id (fst \<circ> snd)
     (perlin_generate_noise perlin_init 2 2 (- 1 / 2) 1 (draws [1000, 0, 0, 1000]))
     = Inr [[128, 192], [192, 320]]
   \<and> [[128, 192], [192, 320 :: int]] ! 1 ! 1 = 320
   \<and> \<not> (320 :: int) \<le> 256"
  by code_simp

text \<open>
  Claim C9, amended. For every call of \<open>PerlinNoiseGenerator.generate_noise\<close> with
  \<open>octaves >= 1\<close> and any frequency (any width and height), the call returns a grid and
  every cell of it lies within the fixed band \<open>[-1024, 1280]\<close> around the bias constant
  128; when the frequency is not negative, every cell lies within \<open>[0, 256]\<close>.
\<close>

theorem perlin_cells_within_band:
  assumes "1 \<le> octaves"
  shows "\<exists>self' result g'.
           perlin_generate_noise self width height frequency octaves g = Inr (self', result, g')
         \<and> (\<forall>row\<in>set result. \<forall>v\<in>set row.
               - 1024 \<le> v \<and> v \<le> 1280 \<and> (0 \<le> frequency \<longrightarrow> 0 \<le> v \<and> v \<le> 256))"
proof -
  from perlin_generate_noise_wide_band[OF assms, of self width height frequency g]
  obtain self' result g' where
    r: "perlin_generate_noise self width height frequency octaves g = Inr (self', result, g')"
    and w: "\<forall>row\<in>set result. \<forall>v\<in>set row. - 1024 \<le> v \<and> v \<le> 1280"
    by blast
  have n: "\<forall>row\<in>set result. \<forall>v\<in>set row. 0 \<le> v \<and> v \<le> 256" if f: "0 \<le> frequency"
    using perlin_generate_noise_band[OF f assms, of self width height g] r by auto
  from r w n show ?thesis by blast
qed

theorem perlin_cells_within_band_witness:
  "(1 :: real) \<le> 2 \<and> (0 :: real) \<le> 1 / 2
   \<and> map_sum id (fst \<circ> snd)
       (perlin_generate_noise perlin_init 3 2 (1 / 2) 2 (draws [1000, 0, 500, 250, 1000, 750]))
     = Inr [[144, 112, 80], [128, 120, 112]]
   \<and> list_all (list_all (\<lambda>v. - 1024 \<le> v \<and> v \<le> 1280 \<and> 0 \<le> v \<and> v \<le> 256))
       [[144, 112, 80], [128, 120, 112 :: int]]"
proof -
  have h1: "(1 :: real) \<le> 2" and h2: "(0 :: real) \<le> 1 / 2" by simp_all
  have e: "map_sum id (fst \<circ> snd)
       (perlin_generate_noise perlin_init 3 2 (1 / 2) 2 (draws [1000, 0, 500, 250, 1000, 750]))
     = Inr [[144, 112, 80], [128, 120, 112]]"
    by code_simp
  from perlin_cells_within_band[OF h1, of perlin_init 3 2 "1 / 2" "draws [1000, 0, 500, 250, 1000, 750]"]
  obtain self' result g' where
    r: "perlin_generate_noise perlin_init 3 2 (1 / 2) 2 (draws [1000, 0, 500, 250, 1000, 750])
          = Inr (self', result, g')"
    and b: "\<forall>row\<in>set result. \<forall>v\<in>set row.
               - 1024 \<le> v \<and> v \<le> 1280 \<and> ((0 :: real) \<le> 1 / 2 \<longrightarrow> 0 \<le> v \<and> v \<le> 256)"
    by blast
  from e r have "result = [[144, 112, 80], [128, 120, 112]]" by simp
  with b h2 have "list_all (list_all (\<lambda>v. - 1024 \<le> v \<and> v \<le> 1280 \<and> 0 \<le> v \<and> v \<le> 256))
       [[144, 112, 80], [128, 120, 112 :: int]]"
    unfolding list_all_iff by blast
  with h1 h2 e show ?thesis by (intro conjI)
qed






end
